theory Spec2Isabelle
  imports Main "HOL-Library.Word"
begin

section \<open>The range tree of src/algorithms/range\_tree.cpp\<close>

text \<open>
  The source keeps a complete binary tree in an array \<^verbatim>\<open>Node nodes[TREE_SIZE]\<close>:
  slot 1 is the root, slot \<open>i div 2\<close> the parent of slot \<open>i\<close>, and the leaves are
  the slots \<open>MAX_LEAVES .. TREE_SIZE - 1\<close>. Slot 0 is allocated but never initialised.

  Modelling decisions.
  \<^item> The capacity exponent is the compile-time constant \<^verbatim>\<open>const int D = 16\<close>. Every
    definition below takes it as its first argument \<open>d\<close>, and \<open>D = 16\<close> is the value
    of the source, so that the theorems cover the source and the small trees of the
    specification's examples alike.
  \<^item> \<^verbatim>\<open>int val\<close> is a 32-bit accumulator, \<open>32 word\<close> read as two's complement by \<open>sint\<close>: additions wrap around.
  \<^item> Slot indices, leaf indices and levels are \<^verbatim>\<open>int\<close> in the source and \<open>int\<close>
    here. For \<open>d \<le> 29\<close> and arguments in their documented ranges every index that
    the code computes from an initialised slot lies between \<open>-1\<close> and \<open>2 ^ (d + 1)\<close>,
    so that no index arithmetic overflows 32 bits. What \<^verbatim>\<open>upper_li()\<close> computes from the
    uninitialised slot 0 is some integer; no result depends on it.
  \<^item> The array is a store \<open>int \<Rightarrow> Node\<close>; the slots of the array are
    \<open>0 .. TREE_SIZE - 1\<close>. Each operation returns, beside its result, the list of the
    array accesses \<^verbatim>\<open>nodes[i]\<close> it made, in order.
\<close>

subsection \<open>Constants and shifts\<close>

definition D :: nat where
  "D = 16"

text \<open>\<^verbatim>\<open>a << n\<close> and \<^verbatim>\<open>a >> n\<close> on \<^verbatim>\<open>int\<close>, for the shift counts \<open>n \<ge> 0\<close> that occur.\<close>

definition shl :: "int \<Rightarrow> int \<Rightarrow> int" where
  "shl a n = a * 2 ^ nat n"

definition shr :: "int \<Rightarrow> int \<Rightarrow> int" where
  "shr a n = a div 2 ^ nat n"

definition MAX_LEAVES :: "nat \<Rightarrow> int" where
  "MAX_LEAVES d = shl 1 (int d)"

definition TREE_SIZE :: "nat \<Rightarrow> int" where
  "TREE_SIZE d = shl 1 (int d + 1)"

subsection \<open>class Node\<close>

record Node =
  level :: int
  ni :: int
  val :: "32 word"

text \<open>\<^verbatim>\<open>Node(int d, int _ni) : level(d), ni(_ni), val(0)\<close>\<close>

definition Node2 :: "int \<Rightarrow> int \<Rightarrow> Node" where
  "Node2 lv i = \<lparr>level = lv, ni = i, val = 0\<rparr>"

text \<open>
  \<^verbatim>\<open>Node(int _ni) : level(0), ni(_ni), val(0) { int k = _ni; while(k > 1) { level += 1; k >>= 1; } }\<close>
\<close>

function Node1_loop :: "int \<times> int \<Rightarrow> int \<times> int" where
  "Node1_loop (lv, k) = (if k > 1 then Node1_loop (lv + 1, shr k 1) else (lv, k))"
  by pat_completeness auto
termination
  by (relation "measure (\<lambda>(lv, k). nat k)") (auto simp: shr_def)

definition Node1 :: "int \<Rightarrow> Node" where
  "Node1 i = \<lparr>level = fst (Node1_loop (0, i)), ni = i, val = 0\<rparr>"

definition blevel :: "nat \<Rightarrow> Node \<Rightarrow> int" where
  "blevel d nd = int d - level nd"

definition leveli :: "Node \<Rightarrow> int" where
  "leveli nd = ni nd - shl 1 (level nd)"

definition upper_li :: "nat \<Rightarrow> Node \<Rightarrow> int" where
  "upper_li d nd = (let leaf_coverage = shl 1 (blevel d nd) in (leveli nd + 1) * leaf_coverage)"

definition lower_li :: "nat \<Rightarrow> Node \<Rightarrow> int" where
  "lower_li d nd = (let leaf_coverage = shl 1 (blevel d nd) in leveli nd * leaf_coverage)"

subsection \<open>class RangeTree\<close>

type_synonym nodes = "int \<Rightarrow> Node"

text \<open>An access \<^verbatim>\<open>nodes[i]\<close>: a read of the slot, or a write to it.\<close>

datatype access = Rd int | Wr int

text \<open>
  The constructor. \<open>nodes0\<close> is the content of the array before the constructor runs
  (the default constructor \<^verbatim>\<open>Node() {}\<close> initialises nothing); the two loops assign
  \<^verbatim>\<open>Node(d, ni)\<close> to the slots \<open>1 .. TREE_SIZE - 1\<close>, level by level.
\<close>

definition RangeTree :: "nat \<Rightarrow> nodes \<Rightarrow> nodes" where
  "RangeTree d nodes0 =
     fold (\<lambda>lv t. let start = shl 1 lv; stop = shl 2 lv
                   in fold (\<lambda>i t. t(i := Node2 lv i)) [start..stop - 1] t)
          [0..int d] nodes0"

definition node_i :: "nat \<Rightarrow> int \<Rightarrow> int" where
  "node_i d li = li + MAX_LEAVES d"

text \<open>
  \<^verbatim>\<open>insert\<close>: the loop state is the array, \<^verbatim>\<open>ni\<close> and the accesses so far.
  \<^verbatim>\<open>node.val += val\<close> reads and writes \<^verbatim>\<open>nodes[ni]\<close>.
\<close>

function insert_loop :: "32 word \<Rightarrow> nodes \<times> int \<times> access list \<Rightarrow> nodes \<times> int \<times> access list" where
  "insert_loop v (t, i, log) =
     (if i > 0
      then insert_loop v (t(i := (t i)\<lparr>val := val (t i) + v\<rparr>), shr i 1, log @ [Rd i, Wr i])
      else (t, i, log))"
  by pat_completeness auto
termination
  by (relation "measure (\<lambda>(v, t, i, log). nat i)") (auto simp: shr_def)

definition insert_rt :: "nat \<Rightarrow> int \<Rightarrow> 32 word \<Rightarrow> nodes \<Rightarrow> nodes \<times> access list" where
  "insert_rt d li v t = (case insert_loop v (t, node_i d li, []) of (t', i, log) \<Rightarrow> (t', log))"

text \<open>
  \<^verbatim>\<open>sum\<close>: the loop state is the array, \<^verbatim>\<open>ni\<close>, \<^verbatim>\<open>s\<close> and the accesses so far. One
  iteration of the loop body either goes on with a new state or leaves through \<^verbatim>\<open>break\<close>.
  The left operand of \<^verbatim>\<open>&&\<close> is evaluated first, so \<^verbatim>\<open>nodes[parenti]\<close> is read in every
  iteration, whatever \<^verbatim>\<open>ni > 1\<close> says.
\<close>

datatype 'a ctl = Continue 'a | Break 'a

type_synonym sum_state = "nodes \<times> int \<times> 32 word \<times> access list"

definition sum_body :: "nat \<Rightarrow> int \<Rightarrow> sum_state \<Rightarrow> sum_state ctl" where
  "sum_body d upper_leaf_bound st =
     (case st of (t, i, s, log) \<Rightarrow>
        let parenti = shr i 1; log1 = log @ [Rd parenti] in
        if upper_li d (t parenti) \<le> upper_leaf_bound \<and> i > 1
        then Continue (t, parenti, s, log1)
        else let self = t i; s' = s + val self; log2 = log1 @ [Rd i] in
             if leveli self > 0
             then Continue (t, i - 1, s', log2)
             else Break (t, i, s', log2))"

function sum_loop :: "nat \<Rightarrow> int \<Rightarrow> sum_state \<Rightarrow> sum_state" where
  "sum_loop d k (t, i, s, log) =
     (if i > 0
      then (case sum_body d k (t, i, s, log) of
              Continue st' \<Rightarrow> sum_loop d k st'
            | Break st' \<Rightarrow> st')
      else (t, i, s, log))"
  by pat_completeness auto
termination
proof (relation "measure (\<lambda>(d, k, t, i, s, log). nat i)")
  show "wf (measure (\<lambda>(d, k, t, i, s, log). nat i))"
    by simp
next
  fix d k t i s log st'
  assume "0 < i" and "sum_body d k (t, i, s, log) = Continue st'"
  then show "((d, k, st'), (d, k, t, i, s, log)) \<in> measure (\<lambda>(d, k, t, i, s, log). nat i)"
    by (cases st') (auto simp: sum_body_def Let_def shr_def split: if_splits)
qed

text \<open>The slot at which \<^verbatim>\<open>sum\<close> starts: \<^verbatim>\<open>upper_leaf_bound - 1 + MAX_LEAVES\<close>.\<close>

definition sum_start :: "nat \<Rightarrow> int \<Rightarrow> int" where
  "sum_start d upper_leaf_bound = upper_leaf_bound - 1 + MAX_LEAVES d"

text \<open>
  \<^verbatim>\<open>sum\<close> returns \<^verbatim>\<open>s\<close>; the model returns with it the array after the call and the
  accesses made.
\<close>

definition sum_rt :: "nat \<Rightarrow> nodes \<Rightarrow> int \<Rightarrow> 32 word \<times> nodes \<times> access list" where
  "sum_rt d t upper_leaf_bound =
     (case sum_loop d upper_leaf_bound (t, sum_start d upper_leaf_bound, 0, []) of
        (t', i, s, log) \<Rightarrow> (s, t', log))"

subsection \<open>Reference notions used to state the properties\<close>

text \<open>
  A history of calls \<^verbatim>\<open>insert(li, v)\<close> is a list of pairs, oldest first, and
  \<open>inserts\<close> runs them in that order. \<open>valid_ops\<close> is the documented precondition
  \<open>0 \<le> li < MAX_LEAVES\<close> of every call.
\<close>

fun inserts :: "nat \<Rightarrow> (int \<times> 32 word) list \<Rightarrow> nodes \<Rightarrow> nodes" where
  "inserts d [] t = t"
| "inserts d ((li, v) # ops) t = inserts d ops (fst (insert_rt d li v t))"

definition valid_ops :: "nat \<Rightarrow> (int \<times> 32 word) list \<Rightarrow> bool" where
  "valid_ops d ops = list_all (\<lambda>(li, v). 0 \<le> li \<and> li < MAX_LEAVES d) ops"

text \<open>The sum of the deltas inserted at the leaves of \<open>[a, b)\<close>, and at the leaves below \<open>k\<close>.\<close>

definition deltas_in :: "(int \<times> 32 word) list \<Rightarrow> int \<Rightarrow> int \<Rightarrow> 32 word" where
  "deltas_in ops a b = sum_list (map snd (filter (\<lambda>(li, v). a \<le> li \<and> li < b) ops))"

definition deltas_below :: "(int \<times> 32 word) list \<Rightarrow> int \<Rightarrow> 32 word" where
  "deltas_below ops k = sum_list (map snd (filter (\<lambda>(li, v). li < k) ops))"

text \<open>The same sum in the integers, each delta read as a signed 32-bit value.\<close>

definition int_below :: "(int \<times> 32 word) list \<Rightarrow> int \<Rightarrow> int" where
  "int_below ops k = sum_list (map (\<lambda>(li, v). sint v) (filter (\<lambda>(li, v). li < k) ops))"

text \<open>
  An array in static storage is zero-initialised before the constructor runs; this is the
  initial content used in the concrete instances.
\<close>

definition zero_nodes :: nodes where
  "zero_nodes = (\<lambda>i. \<lparr>level = 0, ni = 0, val = 0\<rparr>)"

text \<open>The slots on the path from slot \<open>i\<close> up to the root, as \<^verbatim>\<open>insert\<close> walks it.\<close>

function anc :: "int \<Rightarrow> int list" where
  "anc i = (if i > 0 then i # anc (shr i 1) else [])"
  by pat_completeness auto
termination
  by (relation "measure nat") (auto simp: shr_def)

text \<open>
  The leaf range \<open>[lo d l j, hi d l j)\<close> of slot \<open>j\<close> of level \<open>l\<close>, by the formulas of
  the comment at the head of the source file.
\<close>

definition lo :: "nat \<Rightarrow> nat \<Rightarrow> int \<Rightarrow> int" where
  "lo d l j = (j - 2 ^ l) * 2 ^ (d - l)"

definition hi :: "nat \<Rightarrow> nat \<Rightarrow> int \<Rightarrow> int" where
  "hi d l j = (j - 2 ^ l + 1) * 2 ^ (d - l)"

text \<open>
  \<open>good d ops nodes0 t\<close>: the array \<open>t\<close> is what the history \<open>ops\<close> must have built. Every
  slot of a level \<open>l \<le> d\<close> carries its level, its own index and the sum of the deltas
  inserted into its leaf range; the slots outside \<open>1 .. TREE_SIZE - 1\<close> are as they were
  before the constructor ran.
\<close>

definition good :: "nat \<Rightarrow> (int \<times> 32 word) list \<Rightarrow> nodes \<Rightarrow> nodes \<Rightarrow> bool" where
  "good d ops nodes0 t \<longleftrightarrow>
     (\<forall>l j. l \<le> d \<and> 2 ^ l \<le> j \<and> j < 2 * 2 ^ l \<longrightarrow>
        level (t j) = int l \<and> ni (t j) = j \<and>
        val (t j) = deltas_in ops ((j - 2 ^ l) * 2 ^ (d - l)) ((j - 2 ^ l + 1) * 2 ^ (d - l))) \<and>
     (\<forall>j. j < 1 \<or> 2 * 2 ^ d \<le> j \<longrightarrow> t j = nodes0 j)"

text \<open>
  The invariant of the loop of \<^verbatim>\<open>sum\<close> for a bound in \<open>1 .. MAX_LEAVES\<close>: the leaves from
  the upper end of the current slot up to the bound are summed in \<^verbatim>\<open>s\<close>, and the bound is
  less than one range width beyond that upper end, or less than two when the slot is a
  right child that has just been reached by a step to the left.
\<close>

definition sum_inv :: "nat \<Rightarrow> int \<Rightarrow> (int \<times> 32 word) list \<Rightarrow> nodes \<Rightarrow> sum_state \<Rightarrow> bool" where
  "sum_inv d k ops t st \<longleftrightarrow>
     (case st of (t', i, s, log) \<Rightarrow>
        t' = t \<and>
        (\<exists>l\<le>d. 2 ^ l \<le> i \<and> i < 2 * 2 ^ l \<and> hi d l i \<le> k \<and> s = deltas_in ops (hi d l i) k \<and>
           (k - hi d l i < 2 ^ (d - l) \<or> odd i \<and> 1 < i \<and> k - hi d l i < 2 * 2 ^ (d - l))))"

text \<open>The slots of the array whose leaf range contains the leaf \<open>li\<close>.\<close>

definition covering :: "nat \<Rightarrow> nodes \<Rightarrow> int \<Rightarrow> int set" where
  "covering d t li =
     {j. 1 \<le> j \<and> j < TREE_SIZE d \<and> lower_li d (t j) \<le> li \<and> li < upper_li d (t j)}"

text \<open>
  The invariant of the loop of \<^verbatim>\<open>sum\<close> for the bound 0: the current slot is on level
  \<open>d - 1\<close> and \<^verbatim>\<open>s\<close> holds the deltas of all leaves from its upper end on.
\<close>

definition zero_inv :: "nat \<Rightarrow> (int \<times> 32 word) list \<Rightarrow> nodes \<Rightarrow> sum_state \<Rightarrow> bool" where
  "zero_inv d ops t st \<longleftrightarrow>
     (case st of (t', i, s, log) \<Rightarrow>
        t' = t \<and> 2 ^ (d - 1) \<le> i \<and> i < 2 * 2 ^ (d - 1) \<and> s = deltas_in ops (hi d (d - 1) i) (2 ^ d))"

text \<open>
  The invariant of the loop of \<^verbatim>\<open>sum\<close> for the bound \<open>MAX_LEAVES\<close>: slot 0 has been read, or
  the current slot is the last one of its level.
\<close>

definition climb_inv :: "nat \<Rightarrow> nodes \<Rightarrow> sum_state \<Rightarrow> bool" where
  "climb_inv d t st \<longleftrightarrow>
     (case st of (t', i, s, log) \<Rightarrow>
        t' = t \<and> (Rd 0 \<in> set log \<or> (\<exists>l\<le>d. i = 2 * 2 ^ l - 1)))"

text \<open>Every logged access is to a slot in \<open>1 .. TREE_SIZE - 1\<close>.\<close>

definition inside :: "nat \<Rightarrow> access list \<Rightarrow> bool" where
  "inside d log \<longleftrightarrow> list_all (\<lambda>a. case a of Rd j \<Rightarrow> 1 \<le> j \<and> j < TREE_SIZE d | Wr j \<Rightarrow> 1 \<le> j \<and> j < TREE_SIZE d) log"

section \<open>Basic facts\<close>

declare insert_loop.simps [simp del] sum_loop.simps [simp del] Node1_loop.simps [simp del]
  anc.simps [simp del]

lemma shl_1 [simp]: "shl 1 (int n) = 2 ^ n"
  by (simp add: shl_def)

lemma MAX_LEAVES_pow: "MAX_LEAVES d = 2 ^ d"
  by (simp add: MAX_LEAVES_def)

lemma TREE_SIZE_pow: "TREE_SIZE d = 2 * 2 ^ d"
  by (simp add: TREE_SIZE_def shl_def nat_add_distrib)

lemma level_exists:
  fixes i :: int
  shows "1 \<le> i \<Longrightarrow> i < 2 * 2 ^ d \<Longrightarrow> \<exists>l\<le>d. 2 ^ l \<le> i \<and> i < 2 * 2 ^ l"
proof (induction d)
  case 0
  then show ?case by auto
next
  case (Suc d)
  show ?case
  proof (cases "i < 2 * 2 ^ d")
    case True
    with Suc obtain l where "l \<le> d" "2 ^ l \<le> i" "i < 2 * 2 ^ l" by blast
    then show ?thesis by (intro exI [of _ l]) simp
  next
    case False
    with Suc.prems show ?thesis by (intro exI [of _ "Suc d"]) simp
  qed
qed

lemma level_unique:
  fixes i :: int
  assumes "2 ^ l \<le> i" "i < 2 * 2 ^ l" "2 ^ m \<le> i" "i < 2 * 2 ^ m"
  shows "l = m"
proof (rule ccontr)
  assume "l \<noteq> m"
  then consider "l < m" | "m < l" by linarith
  then show False
  proof cases
    case 1
    then have "(2::int) ^ Suc l \<le> 2 ^ m" by (intro power_increasing) simp_all
    with assms show False by simp
  next
    case 2
    then have "(2::int) ^ Suc m \<le> 2 ^ l" by (intro power_increasing) simp_all
    with assms show False by simp
  qed
qed

lemma fold_upd:
  "fold (\<lambda>i t. t(i := g i)) xs t j = (if j \<in> set xs then g j else t j)"
  by (induction xs arbitrary: t) auto

lemma RangeTree_Suc:
  "RangeTree (Suc d) m = fold (\<lambda>i t. t(i := Node2 (int (Suc d)) i)) [2 * 2 ^ d..2 * (2 * 2 ^ d) - 1] (RangeTree d m)"
proof -
  have "[0..int (Suc d)] = [0..int d] @ [int (Suc d)]"
    using upto_rec2 [of 0 "int (Suc d)"] by simp
  then show ?thesis
    by (simp add: RangeTree_def shl_def Let_def nat_add_distrib del: of_nat_Suc)
qed

lemma RangeTree_0:
  "RangeTree 0 m = m(1 := Node2 0 1)"
  by (simp add: RangeTree_def shl_def Let_def upto.simps)

lemma RangeTree_level:
  "l \<le> d \<Longrightarrow> 2 ^ l \<le> i \<Longrightarrow> i < 2 * 2 ^ l \<Longrightarrow> RangeTree d m i = Node2 (int l) i"
proof (induction d)
  case 0
  then have "i = 1" by simp
  then show ?case using 0 by (simp add: RangeTree_0)
next
  case (Suc d)
  show ?case
  proof (cases "l = Suc d")
    case True
    with Suc.prems show ?thesis
      by (simp add: RangeTree_Suc fold_upd del: of_nat_Suc)
  next
    case False
    with Suc.prems have l: "l \<le> d" by simp
    have "(2::int) ^ l \<le> 2 ^ d" using l by (intro power_increasing) simp_all
    with Suc.prems have "i < 2 * 2 ^ d" by linarith
    with Suc.IH [OF l Suc.prems(2,3)] show ?thesis
      by (simp add: RangeTree_Suc fold_upd del: of_nat_Suc)
  qed
qed

lemma RangeTree_outside:
  "i < 1 \<or> 2 * 2 ^ d \<le> i \<Longrightarrow> RangeTree d m i = m i"
proof (induction d)
  case 0
  then show ?case by (auto simp: RangeTree_0)
next
  case (Suc d)
  have "(0::int) < 2 ^ d" by simp
  with Suc.prems have "i < 1 \<or> 2 * 2 ^ d \<le> i" by auto
  from Suc.IH [OF this] Suc.prems show ?case
    by (auto simp: RangeTree_Suc fold_upd simp del: of_nat_Suc)
qed

lemma Node1_loop_level:
  "2 ^ l \<le> k \<Longrightarrow> k < 2 * 2 ^ l \<Longrightarrow> Node1_loop (lv, k) = (lv + int l, 1)"
proof (induction l arbitrary: lv k)
  case 0
  then have "k = 1" by simp
  then show ?case by (simp add: Node1_loop.simps)
next
  case (Suc l)
  have pos: "(1::int) \<le> 2 ^ l" by simp
  from Suc.prems have "2 ^ l \<le> shr k 1" "shr k 1 < 2 * 2 ^ l"
    by (simp_all add: shr_def)
  moreover have "2 * 2 ^ l \<le> k" using Suc.prems by simp
  with pos have "1 < k" by linarith
  moreover note Suc.IH [of "shr k 1" "lv + 1"]
  ultimately show ?case
    by (subst Node1_loop.simps) simp
qed

section \<open>The two ways of building a node\<close>

text \<open>
  Claim C9. For every slot \<open>i\<close> in \<open>1 .. TREE_SIZE - 1\<close>, the constructor
  \<^verbatim>\<open>Node(int _ni)\<close>, which finds the level by halving, builds the very node that the
  tree's constructor stored in slot \<open>i\<close> through \<^verbatim>\<open>Node(int d, int _ni)\<close>; its level
  lies in \<open>0 .. d\<close> and is the only one with \<open>2 ^ level \<le> i < 2 ^ (level + 1)\<close>.
\<close>

theorem slow_path_level:
  assumes "1 \<le> i" and "i < TREE_SIZE d"
  shows "Node1 i = RangeTree d nodes0 i \<and>
         0 \<le> level (Node1 i) \<and> level (Node1 i) \<le> int d \<and>
         shl 1 (level (Node1 i)) \<le> i \<and> i < shl 1 (level (Node1 i) + 1) \<and>
         (\<forall>l. 2 ^ l \<le> i \<and> i < 2 ^ (l + 1) \<longrightarrow> level (Node1 i) = int l)"
proof -
  from assms obtain l where l: "l \<le> d" "2 ^ l \<le> i" "i < 2 * 2 ^ l"
    using level_exists [of i d] by (auto simp: TREE_SIZE_pow)
  have lv: "level (Node1 i) = int l"
    using Node1_loop_level [OF l(2,3), of 0] by (simp add: Node1_def)
  have "Node1 i = Node2 (int l) i"
    using Node1_loop_level [OF l(2,3), of 0] by (simp add: Node1_def Node2_def)
  then have "Node1 i = RangeTree d nodes0 i"
    by (simp add: RangeTree_level [OF l])
  moreover have "\<forall>m. 2 ^ m \<le> i \<and> i < 2 ^ (m + 1) \<longrightarrow> level (Node1 i) = int m"
    using level_unique [OF l(2,3)] lv by auto
  ultimately show ?thesis
    using l lv by (simp add: shl_def nat_add_distrib)
qed

theorem slow_path_level_witness:
  "(1::int) \<le> 5 \<and> 5 < TREE_SIZE 3 \<and> Node1 5 = RangeTree 3 zero_nodes 5 \<and>
   shl 1 (level (Node1 5)) \<le> 5 \<and> 5 < shl 1 (level (Node1 5) + 1)"
proof -
  have h1: "(1::int) \<le> 5" by simp
  have h2: "(5::int) < TREE_SIZE 3" by (simp add: TREE_SIZE_pow)
  from slow_path_level [OF h1 h2, of zero_nodes] h1 h2 show ?thesis by blast
qed

section \<open>The path of an insert\<close>

lemma div_eq_iff_int:
  fixes i c j :: int
  assumes "0 < c"
  shows "i div c = j \<longleftrightarrow> j * c \<le> i \<and> i < (j + 1) * c"
proof
  assume j: "i div c = j"
  define r where "r = i mod c"
  have "i = j * c + r" unfolding r_def j [symmetric] by simp
  moreover have "0 \<le> r" "r < c" using assms by (simp_all add: r_def)
  ultimately show "j * c \<le> i \<and> i < (j + 1) * c"
    by (simp add: algebra_simps)
next
  assume h: "j * c \<le> i \<and> i < (j + 1) * c"
  have "i = c * j + (i - j * c)" by simp
  moreover have "0 \<le> i - j * c" using h by simp
  moreover have "i - j * c < c" using h by (simp add: algebra_simps)
  ultimately show "i div c = j"
    by (rule int_div_pos_eq)
qed

lemma anc_bounds: "j \<in> set (anc i) \<Longrightarrow> 0 < j \<and> j \<le> i"
proof (induction i rule: anc.induct)
  case (1 i)
  show ?case
  proof (cases "0 < i")
    case True
    with "1.prems" have "j = i \<or> j \<in> set (anc (shr i 1))"
      by (subst (asm) anc.simps) simp
    moreover have "shr i 1 \<le> i" using True by (simp add: shr_def)
    ultimately show ?thesis using "1.IH" True by fastforce
  next
    case False
    with "1.prems" show ?thesis by (subst (asm) anc.simps) simp
  qed
qed

lemma anc_level:
  "2 ^ m \<le> i \<Longrightarrow> i < 2 * 2 ^ m \<Longrightarrow> anc i = map (\<lambda>n. i div 2 ^ n) [0..<Suc m]"
proof (induction m arbitrary: i)
  case 0
  then have "i = 1" by simp
  then show ?case by (simp add: anc.simps [of 1] anc.simps [of 0] shr_def)
next
  case (Suc m)
  have pos: "(1::int) \<le> 2 ^ m" by simp
  from Suc.prems have b: "2 * 2 ^ m \<le> i" "i < 4 * 2 ^ m" by simp_all
  then have "2 ^ m \<le> i div 2" "i div 2 < 2 * 2 ^ m" by linarith+
  from Suc.IH [OF this] have "anc (i div 2) = map (\<lambda>n. i div 2 ^ Suc n) [0..<Suc m]"
    by (simp add: zdiv_zmult2_eq del: upt_Suc)
  moreover have "0 < i" using b pos by linarith
  ultimately have "anc i = i # map (\<lambda>n. i div 2 ^ Suc n) [0..<Suc m]"
    by (subst anc.simps) (simp add: shr_def del: upt_Suc)
  also have "\<dots> = map (\<lambda>n. i div 2 ^ n) [0..<Suc (Suc m)]"
    by (subst map_upt_Suc [of _ "Suc m"]) simp
  finally show ?case .
qed

lemma div_level:
  fixes i :: int
  assumes "2 ^ d \<le> i" "i < 2 * 2 ^ d" "n \<le> d"
  shows "2 ^ (d - n) \<le> i div 2 ^ n \<and> i div 2 ^ n < 2 * 2 ^ (d - n)"
proof -
  have e: "(2::int) ^ d = 2 ^ (d - n) * 2 ^ n"
    using assms(3) by (simp flip: power_add)
  have c: "0 < (2::int) ^ n" by simp
  define q where "q = i div 2 ^ n"
  have q: "q * 2 ^ n \<le> i" "i < (q + 1) * 2 ^ n"
    using div_eq_iff_int [OF c, of i q] q_def by simp_all
  have "2 ^ (d - n) * 2 ^ n < (q + 1) * 2 ^ n"
    using q assms e by linarith
  then have 1: "2 ^ (d - n) < q + 1"
    using c by (simp only: mult_less_cancel_right_pos)
  have "q * 2 ^ n < (2 * 2 ^ (d - n)) * 2 ^ n"
    using q assms e by linarith
  then have 2: "q < 2 * 2 ^ (d - n)"
    using c by (simp only: mult_less_cancel_right_pos)
  from 1 2 show ?thesis unfolding q_def by linarith
qed

lemma anc_covers:
  assumes "0 \<le> li" "li < 2 ^ d" "l \<le> d" "2 ^ l \<le> j" "j < 2 * 2 ^ l"
  shows "j \<in> set (anc (li + 2 ^ d)) \<longleftrightarrow>
         (j - 2 ^ l) * 2 ^ (d - l) \<le> li \<and> li < (j - 2 ^ l + 1) * 2 ^ (d - l)"
proof -
  define i where "i = li + 2 ^ d"
  have i: "2 ^ d \<le> i" "i < 2 * 2 ^ d" using assms by (simp_all add: i_def)
  have e: "(2::int) ^ d = 2 ^ l * 2 ^ (d - l)"
    using assms(3) by (simp flip: power_add)
  have c: "0 < (2::int) ^ (d - l)" by simp
  have cov: "(j - 2 ^ l) * 2 ^ (d - l) \<le> li \<and> li < (j - 2 ^ l + 1) * 2 ^ (d - l)
             \<longleftrightarrow> i div 2 ^ (d - l) = j"
    unfolding div_eq_iff_int [OF c] i_def e by (simp add: algebra_simps)
  have "j \<in> set (anc i) \<longleftrightarrow> i div 2 ^ (d - l) = j"
  proof
    assume "j \<in> set (anc i)"
    then obtain n where n: "n \<le> d" "j = i div 2 ^ n"
      unfolding anc_level [OF i] set_map set_upt by (auto simp: less_Suc_eq_le)
    from div_level [OF i n(1)] n(2) assms have "l = d - n"
      by (intro level_unique [of l j "d - n"]) simp_all
    with n show "i div 2 ^ (d - l) = j" by simp
  next
    assume "i div 2 ^ (d - l) = j"
    then have "j \<in> (\<lambda>n. i div 2 ^ n) ` {0..<Suc d}"
      by (intro image_eqI [of _ _ "d - l"]) auto
    then show "j \<in> set (anc i)"
      unfolding anc_level [OF i] set_map set_upt .
  qed
  with cov show ?thesis unfolding i_def by simp
qed

lemma insert_loop_nodes:
  "fst (insert_loop v (t, i, log)) =
     (\<lambda>j. if j \<in> set (anc i) then (t j)\<lparr>val := val (t j) + v\<rparr> else t j)"
proof (induction v "(t, i, log)" arbitrary: t i log rule: insert_loop.induct)
  case (1 v t i log)
  show ?case
  proof (cases "0 < i")
    case True
    have "i \<notin> set (anc (shr i 1))"
      using anc_bounds [of i "shr i 1"] True by (auto simp: shr_def)
    with True "1.hyps" [OF True] show ?thesis
      by (subst insert_loop.simps, subst anc.simps) (auto simp: fun_eq_iff)
  next
    case False
    then show ?thesis
      by (subst insert_loop.simps, subst anc.simps) simp
  qed
qed

lemma insert_loop_log:
  "snd (snd (insert_loop v (t, i, log))) = log @ concat (map (\<lambda>j. [Rd j, Wr j]) (anc i))"
proof (induction v "(t, i, log)" arbitrary: t i log rule: insert_loop.induct)
  case (1 v t i log)
  show ?case
  proof (cases "0 < i")
    case True
    with "1.hyps" [OF True] show ?thesis
      by (subst insert_loop.simps, subst anc.simps) simp
  next
    case False
    then show ?thesis
      by (subst insert_loop.simps, subst anc.simps) simp
  qed
qed

section \<open>The arrays that a history of inserts builds\<close>

lemma deltas_in_Nil [simp]: "deltas_in [] a b = 0"
  by (simp add: deltas_in_def)

lemma deltas_in_snoc:
  "deltas_in (ops @ [(li, v)]) a b = deltas_in ops a b + (if a \<le> li \<and> li < b then v else 0)"
  by (simp add: deltas_in_def)

lemma inserts_snoc:
  "inserts d (ops @ [(li, v)]) t = fst (insert_rt d li v (inserts d ops t))"
  by (induction d ops t rule: inserts.induct) simp_all

lemma insert_rt_eq:
  "insert_rt d li v t =
     (fst (insert_loop v (t, node_i d li, [])), snd (snd (insert_loop v (t, node_i d li, []))))"
  by (simp add: insert_rt_def split: prod.splits)

lemma insert_rt_nodes:
  "fst (insert_rt d li v t) =
     (\<lambda>j. if j \<in> set (anc (li + 2 ^ d)) then (t j)\<lparr>val := val (t j) + v\<rparr> else t j)"
  using insert_loop_nodes [of v t "li + 2 ^ d" "[]"]
  by (simp add: insert_rt_eq node_i_def MAX_LEAVES_pow)

lemma insert_rt_log:
  "snd (insert_rt d li v t) = concat (map (\<lambda>j. [Rd j, Wr j]) (anc (li + 2 ^ d)))"
  using insert_loop_log [of v t "li + 2 ^ d" "[]"]
  by (simp add: insert_rt_eq node_i_def MAX_LEAVES_pow)

lemma good_init: "good d [] nodes0 (RangeTree d nodes0)"
  by (auto simp: good_def RangeTree_level RangeTree_outside Node2_def)

lemma anc_inside:
  assumes "0 \<le> li" "li < 2 ^ d" "j \<in> set (anc (li + 2 ^ d))"
  shows "1 \<le> j \<and> j < 2 * 2 ^ d"
  using anc_bounds [OF assms(3)] assms(1,2) by simp

lemma good_insert:
  assumes g: "good d ops nodes0 t" and li: "0 \<le> li" "li < 2 ^ d"
  shows "good d (ops @ [(li, v)]) nodes0 (fst (insert_rt d li v t))"
  unfolding good_def
proof (intro conjI allI impI)
  fix l and j :: int
  assume h: "l \<le> d \<and> 2 ^ l \<le> j \<and> j < 2 * 2 ^ l"
  then have lj: "l \<le> d" "2 ^ l \<le> j" "j < 2 * 2 ^ l" by simp_all
  from g h have old: "level (t j) = int l" "ni (t j) = j"
    "val (t j) = deltas_in ops ((j - 2 ^ l) * 2 ^ (d - l)) ((j - 2 ^ l + 1) * 2 ^ (d - l))"
    unfolding good_def by blast+
  show "level (fst (insert_rt d li v t) j) = int l"
    using old by (simp add: insert_rt_nodes)
  show "ni (fst (insert_rt d li v t) j) = j"
    using old by (simp add: insert_rt_nodes)
  show "val (fst (insert_rt d li v t) j) =
        deltas_in (ops @ [(li, v)]) ((j - 2 ^ l) * 2 ^ (d - l)) ((j - 2 ^ l + 1) * 2 ^ (d - l))"
    using old(3) anc_covers [OF li lj]
    by (simp add: insert_rt_nodes deltas_in_snoc)
next
  fix j :: int
  assume "j < 1 \<or> 2 * 2 ^ d \<le> j"
  with anc_inside [OF li, of j] have "j \<notin> set (anc (li + 2 ^ d))" by auto
  moreover from g \<open>j < 1 \<or> 2 * 2 ^ d \<le> j\<close> have "t j = nodes0 j"
    unfolding good_def by blast
  ultimately show "fst (insert_rt d li v t) j = nodes0 j"
    by (simp add: insert_rt_nodes)
qed

lemma good_inserts:
  "valid_ops d ops \<Longrightarrow> good d ops nodes0 (inserts d ops (RangeTree d nodes0))"
proof (induction ops rule: rev_induct)
  case Nil
  show ?case by (simp add: good_init)
next
  case (snoc x ops)
  obtain li v where x: "x = (li, v)" by (cases x)
  from snoc.prems have "valid_ops d ops" "0 \<le> li" "li < 2 ^ d"
    by (simp_all add: valid_ops_def x MAX_LEAVES_pow)
  with snoc.IH show ?case
    by (simp add: x inserts_snoc good_insert)
qed

section \<open>The loop of sum\<close>

lemma good_node:
  assumes "good d ops nodes0 t" "l \<le> d" "2 ^ l \<le> j" "j < 2 * 2 ^ l"
  shows "level (t j) = int l" "ni (t j) = j" "val (t j) = deltas_in ops (lo d l j) (hi d l j)"
    "leveli (t j) = j - 2 ^ l" "lower_li d (t j) = lo d l j" "upper_li d (t j) = hi d l j"
proof -
  from assms show 1: "level (t j) = int l" and 2: "ni (t j) = j"
    and "val (t j) = deltas_in ops (lo d l j) (hi d l j)"
    unfolding good_def lo_def hi_def by blast+
  have "nat (int d - int l) = d - l" by simp
  with 1 2 show "leveli (t j) = j - 2 ^ l" "lower_li d (t j) = lo d l j"
    "upper_li d (t j) = hi d l j"
    by (simp_all add: leveli_def lower_li_def upper_li_def blevel_def shl_def lo_def hi_def)
qed

lemma hi_lo: "hi d l j = lo d l j + 2 ^ (d - l)"
  by (simp add: hi_def lo_def algebra_simps)

lemma lo_pred: "lo d l j = hi d l (j - 1)"
  by (simp add: hi_def lo_def)

lemma hi_parent:
  assumes "Suc l \<le> d"
  shows "hi d l (j div 2) = (if odd j then hi d (Suc l) j else hi d (Suc l) j + 2 ^ (d - Suc l))"
proof -
  have e: "d - l = Suc (d - Suc l)" using assms by simp
  show ?thesis
  proof (cases "odd j")
    case True
    then obtain p where "j = 2 * p + 1" by (elim oddE)
    then show ?thesis using True by (simp add: hi_def e algebra_simps)
  next
    case False
    then have "even j" by simp
    then obtain p where "j = 2 * p" by (elim evenE)
    then show ?thesis using False by (simp add: hi_def e algebra_simps)
  qed
qed

lemma deltas_in_empty [simp]: "deltas_in ops a a = 0"
  by (induction ops) (auto simp: deltas_in_def)

lemma deltas_in_split:
  "a \<le> b \<Longrightarrow> b \<le> c \<Longrightarrow> deltas_in ops a b + deltas_in ops b c = deltas_in ops a c"
  by (induction ops) (auto simp: deltas_in_def)

lemma deltas_in_below:
  "valid_ops d ops \<Longrightarrow> deltas_in ops 0 k = deltas_below ops k"
  by (induction ops) (auto simp: deltas_in_def deltas_below_def valid_ops_def)

lemma sum_loop_rule:
  assumes "I st"
    and "\<And>st st'. I st \<Longrightarrow> 0 < fst (snd st) \<Longrightarrow> sum_body d k st = Continue st' \<Longrightarrow> I st'"
    and "\<And>st st'. I st \<Longrightarrow> 0 < fst (snd st) \<Longrightarrow> sum_body d k st = Break st' \<Longrightarrow> Q st'"
    and "\<And>st. I st \<Longrightarrow> \<not> 0 < fst (snd st) \<Longrightarrow> Q st"
  shows "Q (sum_loop d k st)"
  using assms
proof (induction d k st rule: sum_loop.induct)
  case (1 d k t i s log)
  note I = "1.prems"(1) and step = "1.prems"(2) and brk = "1.prems"(3) and ex = "1.prems"(4)
  show ?case
  proof (cases "0 < i")
    case False
    with ex [OF I] show ?thesis
      by (simp add: sum_loop.simps)
  next
    case True
    show ?thesis
    proof (cases "sum_body d k (t, i, s, log)")
      case (Continue st')
      with step [OF I _ Continue] True have "I st'" by simp
      from "1.IH" [OF True Continue this step brk ex] Continue True show ?thesis
        by (simp add: sum_loop.simps)
    next
      case (Break st')
      with brk [OF I _ Break] True show ?thesis
        by (simp add: sum_loop.simps)
    qed
  qed
qed

lemma sum_body_climb:
  "upper_li d (t (i div 2)) \<le> k \<Longrightarrow> 1 < i \<Longrightarrow>
   sum_body d k (t, i, s, log) = Continue (t, i div 2, s, log @ [Rd (i div 2)])"
  by (simp add: sum_body_def shr_def Let_def)

lemma sum_body_stay:
  "\<not> (upper_li d (t (i div 2)) \<le> k \<and> 1 < i) \<Longrightarrow>
   sum_body d k (t, i, s, log) =
     (if 0 < leveli (t i)
      then Continue (t, i - 1, s + val (t i), log @ [Rd (i div 2), Rd i])
      else Break (t, i, s + val (t i), log @ [Rd (i div 2), Rd i]))"
  by (simp add: sum_body_def shr_def Let_def)

lemma half_level:
  fixes i :: int
  assumes "2 ^ Suc l \<le> i" "i < 2 * 2 ^ Suc l"
  shows "2 ^ l \<le> i div 2" "i div 2 < 2 * 2 ^ l"
  using assms by simp_all

lemma good_step:
  assumes g: "good d ops nodes0 t" and l: "l \<le> d" "2 ^ l \<le> i" "i < 2 * 2 ^ l"
  shows "sum_body d k (t, i, s, log) =
     (if 1 < i \<and> hi d (l - 1) (i div 2) \<le> k
      then Continue (t, i div 2, s, log @ [Rd (i div 2)])
      else if 2 ^ l < i
      then Continue (t, i - 1, s + deltas_in ops (lo d l i) (hi d l i), log @ [Rd (i div 2), Rd i])
      else Break (t, i, s + deltas_in ops (lo d l i) (hi d l i), log @ [Rd (i div 2), Rd i]))"
proof (cases "1 < i")
  case True
  with l obtain l' where l': "l = Suc l'" by (cases l) auto
  from l have "2 ^ l' \<le> i div 2" "i div 2 < 2 * 2 ^ l'" unfolding l' by simp_all
  moreover have "l' \<le> d" using l l' by simp
  ultimately have up: "upper_li d (t (i div 2)) = hi d l' (i div 2)"
    using good_node(6) [OF g] by blast
  show ?thesis
  proof (cases "hi d l' (i div 2) \<le> k")
    case le: True
    with True up show ?thesis
      by (simp add: sum_body_climb l')
  next
    case False
    with up have "\<not> (upper_li d (t (i div 2)) \<le> k \<and> 1 < i)" by simp
    from sum_body_stay [where d = d and t = t and i = i and k = k and s = s and log = log, OF this] False True show ?thesis
      by (simp add: good_node(3,4) [OF g l] l')
  qed
next
  case False
  then have "\<not> (upper_li d (t (i div 2)) \<le> k \<and> 1 < i)" by simp
  from sum_body_stay [where d = d and t = t and i = i and k = k and s = s and log = log, OF this] False show ?thesis
    by (simp add: good_node(3,4) [OF g l])
qed

lemma lo_first: "lo d l (2 ^ l) = 0"
  by (simp add: lo_def)

lemma lo_nonneg: "2 ^ l \<le> j \<Longrightarrow> 0 \<le> lo d l j"
  by (simp add: lo_def)

lemma lo_le_hi: "lo d l j \<le> hi d l j"
  by (simp add: hi_lo)

lemma sum_inv_step:
  assumes g: "good d ops nodes0 t" and inv: "sum_inv d k ops t (t, i, s, log)"
  shows "case sum_body d k (t, i, s, log) of
           Continue st' \<Rightarrow> sum_inv d k ops t st'
         | Break st' \<Rightarrow> fst st' = t \<and> fst (snd (snd st')) = deltas_in ops 0 k"
proof -
  from inv obtain l where l: "l \<le> d" "2 ^ l \<le> i" "i < 2 * 2 ^ l"
    and u: "hi d l i \<le> k" and s: "s = deltas_in ops (hi d l i) k"
    and tight: "k - hi d l i < 2 ^ (d - l) \<or> odd i \<and> 1 < i \<and> k - hi d l i < 2 * 2 ^ (d - l)"
    unfolding sum_inv_def by auto
  have s': "s + deltas_in ops (lo d l i) (hi d l i) = deltas_in ops (lo d l i) k"
    unfolding s using deltas_in_split [OF lo_le_hi u, of ops] by (simp add: add.commute)
  note step = good_step [OF g l, of k s log]
  show ?thesis
  proof (cases l)
    case 0
    with l have "i = 1" by simp
    with step 0 s' show ?thesis
      by (simp add: lo_def)
  next
    case (Suc l')
    have c2: "(2::int) ^ (d - l') = 2 * 2 ^ (d - l)"
      using l(1) Suc by (simp add: Suc_diff_le flip: power_Suc)
    have lm: "l - 1 = l'" using Suc by simp
    note step' = step [unfolded lm]
    have two: "(2::int) \<le> 2 ^ l" unfolding Suc by simp
    have i1: "1 < i" using l(2) two by linarith
    have half: "2 ^ l' \<le> i div 2" "i div 2 < 2 * 2 ^ l'"
      using l(2,3) unfolding Suc by simp_all
    have par: "hi d l' (i div 2) = (if odd i then hi d l i else hi d l i + 2 ^ (d - l))"
      using hi_parent [of l' d i] l(1) Suc by simp
    show ?thesis
    proof (cases "odd i")
      case True
      with par u i1 step'
      have "sum_body d k (t, i, s, log) = Continue (t, i div 2, s, log @ [Rd (i div 2)])"
        by simp
      moreover have "hi d l' (i div 2) = hi d l i" using par True by simp
      moreover have "(0::int) < 2 ^ (d - l)" by simp
      with tight c2 have "k - hi d l i < 2 ^ (d - l')" by linarith
      moreover have "l' \<le> d" using l(1) Suc by simp
      ultimately have "sum_inv d k ops t (t, i div 2, s, log @ [Rd (i div 2)])"
        unfolding sum_inv_def using half u s
        by (intro case_prodI conjI refl exI [of _ l'] disjI1) simp_all
      then show ?thesis using \<open>sum_body d k (t, i, s, log) = Continue (t, i div 2, s, log @ [Rd (i div 2)])\<close> by simp
    next
      case False
      with tight have t1: "k - hi d l i < 2 ^ (d - l)" by simp
      with par False have "\<not> hi d l' (i div 2) \<le> k" by simp
      with step' have body: "sum_body d k (t, i, s, log) =
        (if 2 ^ l < i
         then Continue (t, i - 1, deltas_in ops (lo d l i) k, log @ [Rd (i div 2), Rd i])
         else Break (t, i, deltas_in ops (lo d l i) k, log @ [Rd (i div 2), Rd i]))"
        by (simp add: s')
      show ?thesis
      proof (cases "2 ^ l < i")
        case left: True
        from left two have "1 < i - 1" by linarith
        moreover have "odd (i - 1)" using False by simp
        moreover have "hi d l (i - 1) \<le> k" using u lo_le_hi [of d l i] by (simp flip: lo_pred)
        moreover have "k - hi d l (i - 1) < 2 * 2 ^ (d - l)"
          using t1 hi_lo [of d l i] by (simp flip: lo_pred)
        ultimately have "sum_inv d k ops t (t, i - 1, deltas_in ops (lo d l i) k, log @ [Rd (i div 2), Rd i])"
          unfolding sum_inv_def using l left
          by (intro case_prodI conjI refl exI [of _ l] disjI2) (simp_all add: lo_pred)
        with body left show ?thesis by simp
      next
        case stop: False
        with l have "i = 2 ^ l" by simp
        with body show ?thesis by (simp add: lo_first)
      qed
    qed
  qed
qed

lemma sum_rt_eq:
  "sum_rt d t k =
     (fst (snd (snd (sum_loop d k (t, sum_start d k, 0, [])))),
      fst (sum_loop d k (t, sum_start d k, 0, [])),
      snd (snd (snd (sum_loop d k (t, sum_start d k, 0, [])))))"
  by (simp add: sum_rt_def split: prod.splits)

lemma sum_loop_correct:
  assumes g: "good d ops nodes0 t" and inv: "sum_inv d k ops t st"
  shows "fst (sum_loop d k st) = t \<and> fst (snd (snd (sum_loop d k st))) = deltas_in ops 0 k"
proof (rule sum_loop_rule [where I = "sum_inv d k ops t"
      and Q = "\<lambda>st. fst st = t \<and> fst (snd (snd st)) = deltas_in ops 0 k", OF inv])
  fix st st'
  assume I: "sum_inv d k ops t st" and b: "sum_body d k st = Continue st'"
  obtain i s log where st: "st = (t, i, s, log)"
    using I by (cases st) (auto simp: sum_inv_def)
  from sum_inv_step [OF g I [unfolded st]] b show "sum_inv d k ops t st'"
    by (simp add: st)
next
  fix st st'
  assume I: "sum_inv d k ops t st" and b: "sum_body d k st = Break st'"
  obtain i s log where st: "st = (t, i, s, log)"
    using I by (cases st) (auto simp: sum_inv_def)
  from sum_inv_step [OF g I [unfolded st]] b
  show "fst st' = t \<and> fst (snd (snd st')) = deltas_in ops 0 k"
    by (simp add: st)
next
  fix st
  assume I: "sum_inv d k ops t st" and "\<not> 0 < fst (snd st)"
  moreover from I obtain l where "(2::int) ^ l \<le> fst (snd st)"
    by (cases st) (auto simp: sum_inv_def)
  moreover have "(0::int) < 2 ^ l" by simp
  ultimately have False by linarith
  then show "fst st = t \<and> fst (snd (snd st)) = deltas_in ops 0 k" ..
qed

lemma sum_inv_start:
  assumes "1 \<le> k" "k \<le> 2 ^ d"
  shows "sum_inv d k ops t (t, sum_start d k, 0, [])"
  unfolding sum_inv_def using assms
  by (intro case_prodI conjI refl exI [of _ d] disjI1)
     (simp_all add: sum_start_def MAX_LEAVES_pow hi_def)

lemma sum_rt_good:
  assumes "good d ops nodes0 t" "1 \<le> k" "k \<le> 2 ^ d"
  shows "fst (sum_rt d t k) = deltas_in ops 0 k"
  using sum_loop_correct [OF assms(1) sum_inv_start [OF assms(2,3)]]
  by (simp add: sum_rt_eq)

lemma sum_rt_inserts:
  assumes "valid_ops d ops" "1 \<le> k" "k \<le> 2 ^ d"
  shows "fst (sum_rt d (inserts d ops (RangeTree d nodes0)) k) = deltas_below ops k"
  using sum_rt_good [OF good_inserts [OF assms(1)] assms(2,3)] deltas_in_below [OF assms(1)]
  by simp

section \<open>Prefix sums\<close>

lemma sint_sum_list:
  fixes ws :: "32 word list"
  shows "sint (sum_list ws) = signed_take_bit 31 (sum_list (map sint ws))"
proof (induction ws)
  case Nil
  show ?case by simp
next
  case (Cons w ws)
  have "sint (w + sum_list ws) = signed_take_bit 31 (sint w + sint (sum_list ws))"
    by (simp add: sint_word_ariths)
  also have "\<dots> = signed_take_bit 31 (signed_take_bit 31 (sint w) + signed_take_bit 31 (sum_list (map sint ws)))"
    using sint_greater_eq [of w] sint_less [of w]
    by (simp add: Cons.IH signed_take_bit_int_eq_self)
  also have "\<dots> = signed_take_bit 31 (sint w + sum_list (map sint ws))"
    by (rule signed_take_bit_add)
  finally show ?case by simp
qed

lemma sint_sum_list_exact:
  fixes ws :: "32 word list"
  assumes "- (2 ^ 31) \<le> sum_list (map sint ws)" "sum_list (map sint ws) < 2 ^ 31"
  shows "sint (sum_list ws) = sum_list (map sint ws)"
  unfolding sint_sum_list using assms
  by (simp add: signed_take_bit_int_eq_self)

lemma sint_deltas_below:
  assumes "- (2 ^ 31) \<le> int_below ops k" "int_below ops k < 2 ^ 31"
  shows "sint (deltas_below ops k) = int_below ops k"
proof -
  have "map sint (map snd (filter (\<lambda>(li, v). li < k) ops)) =
        map (\<lambda>(li, v). sint v) (filter (\<lambda>(li, v). li < k) ops)"
    by (induction ops) auto
  then have "sum_list (map sint (map snd (filter (\<lambda>(li, v). li < k) ops))) = int_below ops k"
    by (simp only: int_below_def)
  with assms sint_sum_list_exact [of "map snd (filter (\<lambda>(li, v). li < k) ops)"]
  show ?thesis by (simp only: deltas_below_def)
qed

text \<open>
  Claim C1. After any history of calls \<^verbatim>\<open>insert(li, v)\<close> with \<open>0 \<le> li < MAX_LEAVES\<close> on a
  freshly constructed tree, \<^verbatim>\<open>sum(k)\<close> returns, for every \<open>k\<close> in \<open>1 .. MAX_LEAVES\<close>, the sum
  of the deltas \<open>v\<close> of the calls with \<open>li < k\<close>, whatever the array held in slot 0. The sum
  is the one of 32-bit arithmetic; where the sum of the deltas in the integers fits 32
  bits, the value returned is that integer.
\<close>

theorem sum_prefix:
  assumes "valid_ops d ops" and "1 \<le> k" and "k \<le> MAX_LEAVES d"
  shows "fst (sum_rt d (inserts d ops (RangeTree d nodes0)) k) = deltas_below ops k \<and>
         (- (2 ^ 31) \<le> int_below ops k \<and> int_below ops k < 2 ^ 31 \<longrightarrow>
          sint (fst (sum_rt d (inserts d ops (RangeTree d nodes0)) k)) = int_below ops k)"
proof -
  have "fst (sum_rt d (inserts d ops (RangeTree d nodes0)) k) = deltas_below ops k"
    using assms by (simp add: sum_rt_inserts MAX_LEAVES_pow)
  then show ?thesis
    using sint_deltas_below [of ops k] by simp
qed

theorem sum_prefix_witness:
  "valid_ops 3 [(3, 5), (0, 4), (6, 10)] \<and> (1::int) \<le> 4 \<and> 4 \<le> MAX_LEAVES 3 \<and>
   fst (sum_rt 3 (inserts 3 [(3, 5), (0, 4), (6, 10)] (RangeTree 3 zero_nodes)) 4) = 9"
proof -
  have h1: "valid_ops 3 [(3, 5), (0, 4), (6, 10)]"
    by (simp add: valid_ops_def MAX_LEAVES_pow)
  have h2: "(1::int) \<le> 4" by simp
  have h3: "4 \<le> MAX_LEAVES 3" by (simp add: MAX_LEAVES_pow)
  have "deltas_below [(3, 5), (0, 4), (6, 10)] 4 = 9"
    by (simp add: deltas_below_def)
  with sum_prefix [OF h1 h2 h3, of zero_nodes, THEN conjunct1] h1 h2 h3 show ?thesis
    by (simp del: inserts.simps)
qed

text \<open>
  Claim C6. The scenario of the specification: after \<^verbatim>\<open>insert(3, 5)\<close>, \<^verbatim>\<open>insert(3, 2)\<close>,
  \<^verbatim>\<open>insert(6, 10)\<close> on a fresh tree with at least 8 leaves, \<^verbatim>\<open>sum(4)\<close> is 7, \<^verbatim>\<open>sum(3)\<close> is
  0 and \<^verbatim>\<open>sum(8)\<close> is 17; but leaf 6 lies below the bound 7, so \<^verbatim>\<open>sum(7)\<close> is 17 and
  \<^verbatim>\<open>sum(7) - sum(3)\<close> is 17, not 7.
\<close>

theorem boundary_scenario:
  assumes "3 \<le> d"
  shows "fst (sum_rt d (inserts d [(3, 5), (3, 2), (6, 10)] (RangeTree d nodes0)) 4) = 7 \<and>
         fst (sum_rt d (inserts d [(3, 5), (3, 2), (6, 10)] (RangeTree d nodes0)) 3) = 0 \<and>
         fst (sum_rt d (inserts d [(3, 5), (3, 2), (6, 10)] (RangeTree d nodes0)) 7) = 17 \<and>
         fst (sum_rt d (inserts d [(3, 5), (3, 2), (6, 10)] (RangeTree d nodes0)) 8) = 17 \<and>
         fst (sum_rt d (inserts d [(3, 5), (3, 2), (6, 10)] (RangeTree d nodes0)) 7) -
         fst (sum_rt d (inserts d [(3, 5), (3, 2), (6, 10)] (RangeTree d nodes0)) 3) = 17"
proof -
  have "(2::int) ^ 3 \<le> 2 ^ d" using assms by (intro power_increasing) simp_all
  then have 8: "(8::int) \<le> 2 ^ d" by simp
  then have v: "valid_ops d [(3, 5), (3, 2), (6, 10)]"
    by (simp add: valid_ops_def MAX_LEAVES_pow)
  have r: "fst (sum_rt d (inserts d [(3, 5), (3, 2), (6, 10)] (RangeTree d nodes0)) k) =
        deltas_below [(3, 5), (3, 2), (6, 10)] k" if "1 \<le> k" "k \<le> 8" for k
    using sum_rt_inserts [OF v that(1)] that(2) 8 by (simp del: inserts.simps)
  show ?thesis
    using r [of 4] r [of 3] r [of 7] r [of 8]
    by (simp add: deltas_below_def del: inserts.simps)
qed

theorem boundary_scenario_witness:
  "(3::nat) \<le> 3 \<and>
   fst (sum_rt 3 (inserts 3 [(3, 5), (3, 2), (6, 10)] (RangeTree 3 zero_nodes)) 4) = 7 \<and>
   fst (sum_rt 3 (inserts 3 [(3, 5), (3, 2), (6, 10)] (RangeTree 3 zero_nodes)) 8) = 17"
proof -
  have h: "(3::nat) \<le> 3" by simp
  from boundary_scenario [OF h, of zero_nodes] h show ?thesis by blast
qed

theorem boundary_scenario_counterexample:
  "\<not> (fst (sum_rt 3 (inserts 3 [(3, 5), (3, 2), (6, 10)] (RangeTree 3 zero_nodes)) 7) = 7) \<and>
   \<not> (fst (sum_rt D (inserts D [(3, 5), (3, 2), (6, 10)] (RangeTree D zero_nodes)) 7) = 7)"
proof -
  have v3: "valid_ops 3 [(3, 5), (3, 2), (6, 10)]"
    by (simp add: valid_ops_def MAX_LEAVES_pow)
  have vD: "valid_ops D [(3, 5), (3, 2), (6, 10)]"
    by (simp add: valid_ops_def MAX_LEAVES_pow D_def)
  have e: "deltas_below [(3, 5), (3, 2), (6, 10)] 7 = 17"
    by (simp add: deltas_below_def)
  have "fst (sum_rt 3 (inserts 3 [(3, 5), (3, 2), (6, 10)] (RangeTree 3 zero_nodes)) 7) = 17"
    using sum_rt_inserts [OF v3, of 7 zero_nodes] e by (simp del: inserts.simps)
  moreover
  have "fst (sum_rt D (inserts D [(3, 5), (3, 2), (6, 10)] (RangeTree D zero_nodes)) 7) = 17"
    using sum_rt_inserts [OF vD, of 7 zero_nodes] e by (simp add: D_def del: inserts.simps)
  ultimately show ?thesis by simp
qed

section \<open>The invariant of the node values\<close>

lemma valid_ops_take: "valid_ops d ops \<Longrightarrow> valid_ops d (take n ops)"
  unfolding valid_ops_def list_all_iff using set_take_subset [of n ops] by blast

lemma good_slot:
  assumes g: "good d ops nodes0 t" and i: "1 \<le> i" "i < TREE_SIZE d"
  shows "val (t i) = deltas_in ops (lower_li d (t i)) (upper_li d (t i))"
proof -
  from i obtain l where l: "l \<le> d" "2 ^ l \<le> i" "i < 2 * 2 ^ l"
    using level_exists [of i d] by (auto simp: TREE_SIZE_pow)
  from good_node(3,5,6) [OF g l] show ?thesis by simp
qed

text \<open>
  Claim C2. After each insert of a history of valid inserts (after the first \<open>n\<close> of them,
  for every \<open>n\<close>), every slot \<open>i\<close> in \<open>1 .. TREE_SIZE - 1\<close> holds in \<^verbatim>\<open>val\<close> the sum of the
  deltas inserted so far at the leaves of its range \<open>[lower_li, upper_li)\<close>.
\<close>

theorem node_val_invariant:
  assumes "valid_ops d ops" and "1 \<le> i" and "i < TREE_SIZE d"
  shows "val (inserts d (take n ops) (RangeTree d nodes0) i) =
         deltas_in (take n ops)
           (lower_li d (inserts d (take n ops) (RangeTree d nodes0) i))
           (upper_li d (inserts d (take n ops) (RangeTree d nodes0) i))"
  using good_slot [OF good_inserts [OF valid_ops_take [OF assms(1)]] assms(2,3)] .

theorem node_val_invariant_witness:
  "valid_ops 3 [(3, 5), (3, 2), (6, 10)] \<and> (1::int) \<le> 5 \<and> 5 < TREE_SIZE 3 \<and>
   val (inserts 3 (take 2 [(3, 5), (3, 2), (6, 10)]) (RangeTree 3 zero_nodes) 5) =
   deltas_in (take 2 [(3, 5), (3, 2), (6, 10)])
     (lower_li 3 (inserts 3 (take 2 [(3, 5), (3, 2), (6, 10)]) (RangeTree 3 zero_nodes) 5))
     (upper_li 3 (inserts 3 (take 2 [(3, 5), (3, 2), (6, 10)]) (RangeTree 3 zero_nodes) 5))"
proof -
  have h1: "valid_ops 3 [(3, 5), (3, 2), (6, 10)]"
    by (simp add: valid_ops_def MAX_LEAVES_pow)
  have h2: "(1::int) \<le> 5" by simp
  have h3: "(5::int) < TREE_SIZE 3" by (simp add: TREE_SIZE_pow)
  from node_val_invariant [OF h1 h2 h3, of 2 zero_nodes] h1 h2 h3 show ?thesis by blast
qed

section \<open>The frame of insert\<close>

lemma anc_distinct: "distinct (anc i)"
proof (induction i rule: anc.induct)
  case (1 i)
  show ?case
  proof (cases "0 < i")
    case True
    have "i \<notin> set (anc (shr i 1))"
      using anc_bounds [of i "shr i 1"] True by (auto simp: shr_def)
    with "1.IH" [OF True] True show ?thesis
      by (subst anc.simps) simp
  next
    case False
    then show ?thesis by (subst anc.simps) simp
  qed
qed

lemma anc_leaf:
  assumes "0 \<le> li" "li < 2 ^ d"
  shows "anc (li + 2 ^ d) = map (\<lambda>n. (li + 2 ^ d) div 2 ^ n) [0..<Suc d]"
  using assms by (intro anc_level) simp_all

lemma cover_anc:
  assumes g: "good d ops nodes0 t" and li: "0 \<le> li" "li < 2 ^ d"
  shows "{j. 1 \<le> j \<and> j < TREE_SIZE d \<and> lower_li d (t j) \<le> li \<and> li < upper_li d (t j)} =
         set (anc (li + 2 ^ d))"
proof (intro set_eqI iffI)
  fix j
  assume "j \<in> {j. 1 \<le> j \<and> j < TREE_SIZE d \<and> lower_li d (t j) \<le> li \<and> li < upper_li d (t j)}"
  then have j: "1 \<le> j" "j < 2 * 2 ^ d" and c: "lower_li d (t j) \<le> li" "li < upper_li d (t j)"
    by (simp_all add: TREE_SIZE_pow)
  from j obtain l where l: "l \<le> d" "2 ^ l \<le> j" "j < 2 * 2 ^ l"
    using level_exists [of j d] by auto
  from c good_node(5,6) [OF g l] anc_covers [OF li l] show "j \<in> set (anc (li + 2 ^ d))"
    by (simp add: lo_def hi_def)
next
  fix j
  assume a: "j \<in> set (anc (li + 2 ^ d))"
  from anc_inside [OF li a] have j: "1 \<le> j" "j < 2 * 2 ^ d" by simp_all
  then obtain l where l: "l \<le> d" "2 ^ l \<le> j" "j < 2 * 2 ^ l"
    using level_exists [of j d] by auto
  from a good_node(5,6) [OF g l] anc_covers [OF li l] j
  show "j \<in> {j. 1 \<le> j \<and> j < TREE_SIZE d \<and> lower_li d (t j) \<le> li \<and> li < upper_li d (t j)}"
    by (simp add: lo_def hi_def TREE_SIZE_pow)
qed

lemma insert_rt_writes:
  "{j. Wr j \<in> set (snd (insert_rt d li v t))} = set (anc (li + 2 ^ d))"
  by (auto simp: insert_rt_log)

lemma insert_rt_reads:
  "{j. Rd j \<in> set (snd (insert_rt d li v t))} = set (anc (li + 2 ^ d))"
  by (auto simp: insert_rt_log)

lemma covering_anc:
  "good d ops nodes0 t \<Longrightarrow> 0 \<le> li \<Longrightarrow> li < 2 ^ d \<Longrightarrow> covering d t li = set (anc (li + 2 ^ d))"
  unfolding covering_def by (rule cover_anc)

text \<open>
  Claim C7. On a tree built by valid inserts, \<^verbatim>\<open>insert(li, v)\<close> with \<open>0 \<le> li < MAX_LEAVES\<close>
  writes exactly the slots whose leaf range contains \<open>li\<close>. There are \<open>d + 1\<close> of them: the
  leaf slot \<open>li + MAX_LEAVES\<close> and its halvings down to slot 1. It adds \<open>v\<close> to the \<^verbatim>\<open>val\<close> of
  each, and leaves every other \<^verbatim>\<open>val\<close> and every \<^verbatim>\<open>level\<close> and \<^verbatim>\<open>ni\<close> as they were.
\<close>

theorem insert_frame:
  fixes d :: nat and ops :: "(int \<times> 32 word) list" and nodes0 :: nodes
  assumes "valid_ops d ops" and "0 \<le> li" and "li < MAX_LEAVES d"
  defines "t \<equiv> inserts d ops (RangeTree d nodes0)"
  shows "card (covering d t li) = d + 1 \<and>
         covering d t li = (\<lambda>n. shr (node_i d li) (int n)) ` {0..d} \<and>
         node_i d li \<in> covering d t li \<and> 1 \<in> covering d t li \<and>
         {j. Wr j \<in> set (snd (insert_rt d li v t))} = covering d t li \<and>
         val (fst (insert_rt d li v t) j) = (if j \<in> covering d t li then val (t j) + v else val (t j)) \<and>
         level (fst (insert_rt d li v t) j) = level (t j) \<and>
         ni (fst (insert_rt d li v t) j) = ni (t j)"
proof -
  have g: "good d ops nodes0 t"
    unfolding t_def by (rule good_inserts [OF assms(1)])
  have li: "0 \<le> li" "li < 2 ^ d"
    using assms(2,3) by (simp_all add: MAX_LEAVES_pow)
  have cov: "covering d t li = set (anc (li + 2 ^ d))"
    by (rule covering_anc [OF g li])
  have n: "node_i d li = li + 2 ^ d"
    by (simp add: node_i_def MAX_LEAVES_pow)
  have "card (set (anc (li + 2 ^ d))) = length (anc (li + 2 ^ d))"
    by (rule distinct_card [OF anc_distinct])
  then have 1: "card (covering d t li) = d + 1"
    by (simp add: cov anc_leaf [OF li])
  have 2: "covering d t li = (\<lambda>n. shr (node_i d li) (int n)) ` {0..d}"
    unfolding cov anc_leaf [OF li] n set_map set_upt shr_def
    by (simp add: atLeastLessThanSuc_atLeastAtMost)
  have 3: "node_i d li \<in> covering d t li"
    unfolding 2 by (intro image_eqI [of _ _ 0]) (simp_all add: shr_def)
  have "(li + 2 ^ d) div 2 ^ d = 1"
    using li by (simp add: div_eq_iff_int)
  then have 4: "1 \<in> covering d t li"
    unfolding 2 n by (intro image_eqI [of _ _ d]) (simp_all add: shr_def)
  have 5: "{j. Wr j \<in> set (snd (insert_rt d li v t))} = covering d t li"
    by (simp add: insert_rt_writes cov)
  have 6: "val (fst (insert_rt d li v t) j) = (if j \<in> covering d t li then val (t j) + v else val (t j))"
    and 7: "level (fst (insert_rt d li v t) j) = level (t j)"
    and 8: "ni (fst (insert_rt d li v t) j) = ni (t j)"
    by (simp_all add: insert_rt_nodes cov)
  from 1 2 3 4 5 6 7 8 show ?thesis by blast
qed

theorem insert_frame_witness:
  "valid_ops 3 [(3, 5)] \<and> (0::int) \<le> 6 \<and> 6 < MAX_LEAVES 3 \<and>
   card (covering 3 (inserts 3 [(3, 5)] (RangeTree 3 zero_nodes)) 6) = 3 + 1 \<and>
   1 \<in> covering 3 (inserts 3 [(3, 5)] (RangeTree 3 zero_nodes)) 6 \<and>
   level (fst (insert_rt 3 6 10 (inserts 3 [(3, 5)] (RangeTree 3 zero_nodes))) 2) =
   level (inserts 3 [(3, 5)] (RangeTree 3 zero_nodes) 2)"
proof -
  have h1: "valid_ops 3 [(3, 5)]"
    by (simp add: valid_ops_def MAX_LEAVES_pow)
  have h2: "(0::int) \<le> 6" by simp
  have h3: "(6::int) < MAX_LEAVES 3" by (simp add: MAX_LEAVES_pow)
  from insert_frame [OF h1 h2 h3, of zero_nodes 10 2] h1 h2 h3 show ?thesis by blast
qed

section \<open>sum reads only\<close>

lemma sum_body_pure:
  assumes "sum_body d k st = Continue st' \<or> sum_body d k st = Break st'"
  shows "fst st' = fst st"
    and "Wr j \<in> set (snd (snd (snd st'))) \<Longrightarrow> Wr j \<in> set (snd (snd (snd st)))"
  using assms
  by (cases st; auto simp: sum_body_def Let_def split: if_splits)+

lemma sum_loop_pure:
  "fst (sum_loop d k (t, i, s, [])) = t \<and> Wr j \<notin> set (snd (snd (snd (sum_loop d k (t, i, s, [])))))"
proof (rule sum_loop_rule [where I = "\<lambda>st. fst st = t \<and> Wr j \<notin> set (snd (snd (snd st)))"
      and Q = "\<lambda>st. fst st = t \<and> Wr j \<notin> set (snd (snd (snd st)))"])
  show "fst (t, i, s, []) = t \<and> Wr j \<notin> set (snd (snd (snd (t, i, s, []))))"
    by simp
next
  fix st st'
  assume "fst st = t \<and> Wr j \<notin> set (snd (snd (snd st)))" "sum_body d k st = Continue st'"
  then show "fst st' = t \<and> Wr j \<notin> set (snd (snd (snd st')))"
    using sum_body_pure(1) [of d k st st'] sum_body_pure(2) [of d k st st' j] by blast
next
  fix st st'
  assume "fst st = t \<and> Wr j \<notin> set (snd (snd (snd st)))" "sum_body d k st = Break st'"
  then show "fst st' = t \<and> Wr j \<notin> set (snd (snd (snd st')))"
    using sum_body_pure(1) [of d k st st'] sum_body_pure(2) [of d k st st' j] by blast
qed

text \<open>
  Claim C8. For every array and every bound, \<^verbatim>\<open>sum\<close> returns with the array as it found it
  and has written to no slot; a second call with the same bound returns the same result.
\<close>

theorem sum_pure:
  "fst (snd (sum_rt d t k)) = t \<and>
   Wr j \<notin> set (snd (snd (sum_rt d t k))) \<and>
   sum_rt d (fst (snd (sum_rt d t k))) k = sum_rt d t k"
proof -
  have "fst (snd (sum_rt d t k)) = t" and "Wr j \<notin> set (snd (snd (sum_rt d t k)))"
    using sum_loop_pure [of d k t "sum_start d k" 0 j] by (simp_all add: sum_rt_eq)
  then show ?thesis by simp
qed

section \<open>sum with the bound 0\<close>

lemma hi_pos: "2 ^ l \<le> j \<Longrightarrow> 0 < hi d l j"
  by (simp add: hi_def)

lemma hi_le:
  assumes "l \<le> d" "j < 2 * 2 ^ l"
  shows "hi d l j \<le> 2 ^ d"
proof -
  have "(2::int) ^ d = 2 ^ l * 2 ^ (d - l)"
    using assms(1) by (simp flip: power_add)
  moreover have "j - 2 ^ l + 1 \<le> 2 ^ l" using assms(2) by simp
  then have "(j - 2 ^ l + 1) * 2 ^ (d - l) \<le> 2 ^ l * 2 ^ (d - l)"
    by (intro mult_right_mono) simp_all
  ultimately show ?thesis by (simp add: hi_def)
qed

lemma deltas_in_all:
  "valid_ops d ops \<Longrightarrow> deltas_in ops 0 (2 ^ d) = sum_list (map snd ops)"
  by (induction ops) (auto simp: deltas_in_def valid_ops_def MAX_LEAVES_pow)

lemma zero_inv_step:
  assumes g: "good d ops nodes0 t" and d: "1 \<le> d" and inv: "zero_inv d ops t (t, i, s, log)"
  shows "case sum_body d 0 (t, i, s, log) of
           Continue st' \<Rightarrow> zero_inv d ops t st'
         | Break st' \<Rightarrow> fst (snd (snd st')) = deltas_in ops 0 (2 ^ d)"
proof -
  define l where "l = d - 1"
  from inv have i: "2 ^ l \<le> i" "i < 2 * 2 ^ l" and s: "s = deltas_in ops (hi d l i) (2 ^ d)"
    unfolding zero_inv_def l_def by simp_all
  have l: "l \<le> d" unfolding l_def by simp
  have s': "s + deltas_in ops (lo d l i) (hi d l i) = deltas_in ops (lo d l i) (2 ^ d)"
    unfolding s using deltas_in_split [OF lo_le_hi hi_le [OF l i(2)], of ops] by (simp add: add.commute)
  have noclimb: "\<not> (1 < i \<and> hi d (l - 1) (i div 2) \<le> 0)"
  proof
    assume a: "1 < i \<and> hi d (l - 1) (i div 2) \<le> 0"
    with i obtain l' where l': "l = Suc l'" by (cases l) auto
    from i have "2 ^ l' \<le> i div 2" unfolding l' by simp
    from hi_pos [OF this, of d] a show False by (simp add: l')
  qed
  from good_step [OF g l i, of 0 s log] noclimb
  have body: "sum_body d 0 (t, i, s, log) =
     (if 2 ^ l < i
      then Continue (t, i - 1, deltas_in ops (lo d l i) (2 ^ d), log @ [Rd (i div 2), Rd i])
      else Break (t, i, deltas_in ops (lo d l i) (2 ^ d), log @ [Rd (i div 2), Rd i]))"
    by (simp add: s')
  show ?thesis
  proof (cases "2 ^ l < i")
    case True
    with i have "zero_inv d ops t (t, i - 1, deltas_in ops (lo d l i) (2 ^ d), log @ [Rd (i div 2), Rd i])"
      unfolding zero_inv_def l_def [symmetric] by (simp add: lo_pred)
    with body True show ?thesis by simp
  next
    case False
    with i have "i = 2 ^ l" by simp
    with body show ?thesis by (simp add: lo_first)
  qed
qed

lemma sum_zero_good:
  assumes g: "good d ops nodes0 t" and d: "1 \<le> d"
  shows "fst (sum_rt d t 0) = deltas_in ops 0 (2 ^ d)"
proof -
  have start: "zero_inv d ops t (t, sum_start d 0, 0, [])"
  proof -
    have e: "(2::int) ^ d = 2 * 2 ^ (d - 1)"
      using d by (cases d) simp_all
    have d1: "d - (d - 1) = 1" using d by simp
    have "hi d (d - 1) (2 ^ d - 1) = (2 ^ d - 1 - 2 ^ (d - 1) + 1) * 2"
      by (simp only: hi_def d1 power_one_right)
    then have "hi d (d - 1) (2 ^ d - 1) = 2 ^ d"
      using e by simp
    then show ?thesis
      unfolding zero_inv_def using e by (simp add: sum_start_def MAX_LEAVES_pow)
  qed
  have "fst (snd (snd (sum_loop d 0 (t, sum_start d 0, 0, [])))) = deltas_in ops 0 (2 ^ d)"
  proof (rule sum_loop_rule [where I = "zero_inv d ops t"
      and Q = "\<lambda>st. fst (snd (snd st)) = deltas_in ops 0 (2 ^ d)", OF start])
    fix st st'
    assume I: "zero_inv d ops t st" and b: "sum_body d 0 st = Continue st'"
    obtain i s log where st: "st = (t, i, s, log)"
      using I by (cases st) (auto simp: zero_inv_def)
    from zero_inv_step [OF g d I [unfolded st]] b show "zero_inv d ops t st'"
      by (simp add: st)
  next
    fix st st'
    assume I: "zero_inv d ops t st" and b: "sum_body d 0 st = Break st'"
    obtain i s log where st: "st = (t, i, s, log)"
      using I by (cases st) (auto simp: zero_inv_def)
    from zero_inv_step [OF g d I [unfolded st]] b
    show "fst (snd (snd st')) = deltas_in ops 0 (2 ^ d)"
      by (simp add: st)
  next
    fix st
    assume I: "zero_inv d ops t st" and "\<not> 0 < fst (snd st)"
    moreover from I have "(2::int) ^ (d - 1) \<le> fst (snd st)"
      by (cases st) (auto simp: zero_inv_def)
    moreover have "(0::int) < 2 ^ (d - 1)" by simp
    ultimately have False by linarith
    then show "fst (snd (snd st)) = deltas_in ops 0 (2 ^ d)" ..
  qed
  then show ?thesis by (simp add: sum_rt_eq)
qed

text \<open>
  Claim C10. On a tree with at least two leaves built by valid inserts, \<^verbatim>\<open>sum(0)\<close> returns
  the sum of all deltas ever inserted.
\<close>

theorem sum_zero_total:
  assumes "valid_ops d ops" and "1 \<le> d"
  shows "fst (sum_rt d (inserts d ops (RangeTree d nodes0)) 0) = sum_list (map snd ops)"
  using sum_zero_good [OF good_inserts [OF assms(1)] assms(2)] deltas_in_all [OF assms(1)]
  by simp

theorem sum_zero_total_witness:
  "valid_ops 3 [(3, 5), (3, 2), (6, 10)] \<and> (1::nat) \<le> 3 \<and>
   fst (sum_rt 3 (inserts 3 [(3, 5), (3, 2), (6, 10)] (RangeTree 3 zero_nodes)) 0) = 17"
proof -
  have h1: "valid_ops 3 [(3, 5), (3, 2), (6, 10)]"
    by (simp add: valid_ops_def MAX_LEAVES_pow)
  have h2: "(1::nat) \<le> 3" by simp
  from sum_zero_total [OF h1 h2, of zero_nodes] h1 h2 show ?thesis
    by (simp del: inserts.simps)
qed

text \<open>
  Claim C4. For the bound 0, \<^verbatim>\<open>sum\<close> starts at slot \<open>MAX_LEAVES - 1\<close>. That slot is not a
  leaf: it is the last slot of level \<open>d - 1\<close>, and its range is the two leaves
  \<open>MAX_LEAVES - 2\<close> and \<open>MAX_LEAVES - 1\<close>.
\<close>

theorem sum_zero_start:
  assumes "valid_ops d ops" and "1 \<le> d"
  shows "sum_start d 0 = MAX_LEAVES d - 1 \<and>
         level (inserts d ops (RangeTree d nodes0) (sum_start d 0)) = int d - 1 \<and>
         lower_li d (inserts d ops (RangeTree d nodes0) (sum_start d 0)) = MAX_LEAVES d - 2 \<and>
         upper_li d (inserts d ops (RangeTree d nodes0) (sum_start d 0)) = MAX_LEAVES d"
proof -
  have e: "(2::int) ^ d = 2 * 2 ^ (d - 1)"
    using assms(2) by (cases d) simp_all
  have s: "sum_start d 0 = 2 ^ d - 1"
    by (simp add: sum_start_def MAX_LEAVES_pow)
  have l: "d - 1 \<le> d" "2 ^ (d - 1) \<le> (2::int) ^ d - 1" "(2::int) ^ d - 1 < 2 * 2 ^ (d - 1)"
    using e by simp_all
  have d1: "d - (d - 1) = 1" using assms(2) by simp
  have "hi d (d - 1) (2 ^ d - 1) = (2 ^ d - 1 - 2 ^ (d - 1) + 1) * 2"
    and "lo d (d - 1) (2 ^ d - 1) = (2 ^ d - 1 - 2 ^ (d - 1)) * 2"
    by (simp_all only: hi_def lo_def d1 power_one_right)
  then have "hi d (d - 1) (2 ^ d - 1) = 2 ^ d" "lo d (d - 1) (2 ^ d - 1) = 2 ^ d - 2"
    using e by simp_all
  with good_node(1,5,6) [OF good_inserts [OF assms(1)] l, of nodes0] assms(2) show ?thesis
    by (simp add: s MAX_LEAVES_pow of_nat_diff)
qed

theorem sum_zero_start_witness:
  "valid_ops 3 [(3, 5)] \<and> (1::nat) \<le> 3 \<and> sum_start 3 0 = MAX_LEAVES 3 - 1 \<and>
   level (inserts 3 [(3, 5)] (RangeTree 3 zero_nodes) (sum_start 3 0)) = int 3 - 1 \<and>
   lower_li 3 (inserts 3 [(3, 5)] (RangeTree 3 zero_nodes) (sum_start 3 0)) = MAX_LEAVES 3 - 2"
proof -
  have h1: "valid_ops 3 [(3, 5)]"
    by (simp add: valid_ops_def MAX_LEAVES_pow)
  have h2: "(1::nat) \<le> 3" by simp
  from sum_zero_start [OF h1 h2, of zero_nodes] h1 h2 show ?thesis by blast
qed

theorem sum_zero_start_counterexample:
  "\<not> (sum_start D 0 = MAX_LEAVES D - 1 \<and>
       level (RangeTree D zero_nodes (sum_start D 0)) = int D \<and>
       lower_li D (RangeTree D zero_nodes (sum_start D 0)) = MAX_LEAVES D - 1 \<and>
       upper_li D (RangeTree D zero_nodes (sum_start D 0)) = MAX_LEAVES D)"
proof -
  have "RangeTree 16 zero_nodes 65535 = Node2 (int 15) 65535"
    by (rule RangeTree_level) simp_all
  then have "level (RangeTree D zero_nodes (sum_start D 0)) = 15"
    by (simp add: D_def sum_start_def MAX_LEAVES_pow Node2_def)
  then show ?thesis by (simp add: D_def)
qed

section \<open>The slots that the operations touch\<close>

text \<open>
  With the bound \<open>MAX_LEAVES\<close> the loop of \<^verbatim>\<open>sum\<close> climbs along the last slot of each level
  up to slot 1. There \<^verbatim>\<open>parenti\<close> is 0, and \<^verbatim>\<open>nodes[parenti].upper_li()\<close> is evaluated before
  \<^verbatim>\<open>ni > 1\<close> is tested.
\<close>

lemma sum_body_log_mono:
  assumes "sum_body d k st = Continue st' \<or> sum_body d k st = Break st'"
  shows "set (snd (snd (snd st))) \<subseteq> set (snd (snd (snd st')))"
  using assms
  by (cases st) (auto simp: sum_body_def Let_def split: if_splits)

lemma hi_last:
  assumes "l \<le> d"
  shows "hi d l (2 * 2 ^ l - 1) = 2 ^ d"
proof -
  have "(2::int) ^ d = 2 ^ l * 2 ^ (d - l)"
    using assms by (simp flip: power_add)
  then show ?thesis by (simp add: hi_def)
qed

lemma climb_inv_step:
  assumes g: "good d ops nodes0 t" and inv: "climb_inv d t (t, i, s, log)"
    and b: "sum_body d (2 ^ d) (t, i, s, log) = Continue st' \<or>
            sum_body d (2 ^ d) (t, i, s, log) = Break st'"
  shows "climb_inv d t st'"
proof (cases "Rd 0 \<in> set log")
  case True
  moreover from b have "fst st' = t"
    using sum_body_pure(1) [of d "2 ^ d" "(t, i, s, log)" st'] by simp
  ultimately show ?thesis
    using sum_body_log_mono [OF b] by (cases st') (auto simp: climb_inv_def)
next
  case False
  with inv obtain l where l: "l \<le> d" and i: "i = 2 * 2 ^ l - 1"
    unfolding climb_inv_def by auto
  have lv: "2 ^ l \<le> i" "i < 2 * 2 ^ l" unfolding i by simp_all
  note step = good_step [OF g l lv, of "2 ^ d" s log]
  show ?thesis
  proof (cases l)
    case 0
    with i have "i = 1" by simp
    with step 0 b show ?thesis
      by (auto simp: climb_inv_def)
  next
    case (Suc l')
    have lm: "l - 1 = l'" using Suc by simp
    have l': "l' \<le> d" using l Suc by simp
    have half: "i div 2 = 2 * 2 ^ l' - 1" unfolding i Suc by simp
    have p: "(1::int) \<le> 2 ^ l'" by simp
    have "i = 4 * 2 ^ l' - 1" unfolding i Suc by simp
    with p have "1 < i" by linarith
    with step [unfolded lm] half hi_last [OF l']
    have "sum_body d (2 ^ d) (t, i, s, log) = Continue (t, i div 2, s, log @ [Rd (i div 2)])"
      by simp
    with b have "st' = (t, i div 2, s, log @ [Rd (i div 2)])" by simp
    with half l' show ?thesis
      unfolding climb_inv_def by auto
  qed
qed

lemma sum_full_reads_0:
  assumes g: "good d ops nodes0 t"
  shows "Rd 0 \<in> set (snd (snd (sum_rt d t (2 ^ d))))"
proof -
  have start: "climb_inv d t (t, sum_start d (2 ^ d), 0, [])"
    unfolding climb_inv_def by (auto simp: sum_start_def MAX_LEAVES_pow intro!: exI [of _ d])
  have "Rd 0 \<in> set (snd (snd (snd (sum_loop d (2 ^ d) (t, sum_start d (2 ^ d), 0, [])))))"
  proof (rule sum_loop_rule [where I = "climb_inv d t"
      and Q = "\<lambda>st. Rd 0 \<in> set (snd (snd (snd st)))", OF start])
    fix st st'
    assume I: "climb_inv d t st" and b: "sum_body d (2 ^ d) st = Continue st'"
    obtain i s log where st: "st = (t, i, s, log)"
      using I by (cases st) (auto simp: climb_inv_def)
    from climb_inv_step [OF g I [unfolded st]] b show "climb_inv d t st'"
      by (simp add: st)
  next
    fix st st'
    assume I: "climb_inv d t st" and pos: "0 < fst (snd st)"
      and b: "sum_body d (2 ^ d) st = Break st'"
    obtain i s log where st: "st = (t, i, s, log)"
      using I by (cases st) (auto simp: climb_inv_def)
    from climb_inv_step [OF g I [unfolded st]] b have c: "climb_inv d t st'"
      by (simp add: st)
    show "Rd 0 \<in> set (snd (snd (snd st')))"
    proof (rule ccontr)
      assume n: "Rd 0 \<notin> set (snd (snd (snd st')))"
      with sum_body_log_mono [of d "2 ^ d" st st'] b have n0: "Rd 0 \<notin> set log"
        by (auto simp: st)
      with I obtain l where l: "l \<le> d" and i: "i = 2 * 2 ^ l - 1"
        unfolding climb_inv_def st by auto
      have lv: "2 ^ l \<le> i" "i < 2 * 2 ^ l" unfolding i by simp_all
      note step = good_step [OF g l lv, of "2 ^ d" s log]
      show False
      proof (cases l)
        case 0
        with i have "i = 1" by simp
        with step 0 b n show False by (auto simp: st)
      next
        case (Suc l')
        have lm: "l - 1 = l'" using Suc by simp
        have l': "l' \<le> d" using l Suc by simp
        have half: "i div 2 = 2 * 2 ^ l' - 1" unfolding i Suc by simp
        have p: "(1::int) \<le> 2 ^ l'" by simp
        have "i = 4 * 2 ^ l' - 1" unfolding i Suc by simp
        with p have "1 < i" by linarith
        with step [unfolded lm] half hi_last [OF l'] b show False
          by (simp add: st)
      qed
    qed
  next
    fix st
    assume I: "climb_inv d t st" and n: "\<not> 0 < fst (snd st)"
    show "Rd 0 \<in> set (snd (snd (snd st)))"
    proof (rule ccontr)
      assume "Rd 0 \<notin> set (snd (snd (snd st)))"
      with I obtain l where "fst (snd st) = 2 * 2 ^ l - 1"
        by (cases st) (auto simp: climb_inv_def)
      moreover have "(1::int) \<le> 2 ^ l" by simp
      ultimately show False using n by linarith
    qed
  qed
  then show ?thesis by (simp add: sum_rt_eq)
qed

text \<open>
  \<^verbatim>\<open>insert\<close> with a leaf index in range, and \<^verbatim>\<open>sum\<close> with a bound in
  \<open>1 .. MAX_LEAVES - 1\<close>, stay within the slots \<open>1 .. TREE_SIZE - 1\<close>.
\<close>

lemma inside_Nil [simp]: "inside d []"
  by (simp add: inside_def)

lemma inside_append [simp]: "inside d (xs @ ys) \<longleftrightarrow> inside d xs \<and> inside d ys"
  by (simp add: inside_def)

lemma inside_Rd [simp]: "inside d [Rd j] \<longleftrightarrow> 1 \<le> j \<and> j < 2 * 2 ^ d"
  by (simp add: inside_def TREE_SIZE_pow)

lemma insert_rt_inside:
  assumes "0 \<le> li" "li < MAX_LEAVES d"
  shows "inside d (snd (insert_rt d li v t))"
proof -
  have "\<forall>j\<in>set (anc (li + 2 ^ d)). 1 \<le> j \<and> j < TREE_SIZE d"
    using anc_inside [of li d] assms by (simp add: MAX_LEAVES_pow TREE_SIZE_pow)
  then show ?thesis
    by (induction "anc (li + 2 ^ d)") (auto simp: insert_rt_log inside_def list_all_iff)
qed

lemma sum_inv_inside_step:
  assumes g: "good d ops nodes0 t" and k: "k < 2 ^ d"
    and inv: "sum_inv d k ops t (t, i, s, log)" and ins: "inside d log"
    and b: "sum_body d k (t, i, s, log) = Continue st' \<or> sum_body d k (t, i, s, log) = Break st'"
  shows "inside d (snd (snd (snd st')))"
proof -
  from inv obtain l where l: "l \<le> d" "2 ^ l \<le> i" "i < 2 * 2 ^ l" and u: "hi d l i \<le> k"
    unfolding sum_inv_def by auto
  have "l \<noteq> 0"
  proof
    assume "l = 0"
    with l have "i = 1" by simp
    with u \<open>l = 0\<close> k hi_last [of 0 d] show False by simp
  qed
  then have "(2::int) \<le> 2 ^ l" by (cases l) simp_all
  with l have i2: "2 \<le> i" by linarith
  have "(2::int) ^ l \<le> 2 ^ d" using l(1) by (intro power_increasing) simp_all
  with l have iu: "i < 2 * 2 ^ d" by linarith
  from i2 iu have h: "1 \<le> i div 2" "i div 2 < 2 * 2 ^ d" by linarith+
  have i1: "1 \<le> i" using i2 by simp
  have "snd (snd (snd st')) = log @ [Rd (i div 2)] \<or>
        snd (snd (snd st')) = log @ [Rd (i div 2), Rd i]"
    using b unfolding good_step [OF g l, of k s log] by (simp split: if_splits) force+
  then show ?thesis
  proof
    assume "snd (snd (snd st')) = log @ [Rd (i div 2)]"
    with ins h show ?thesis by simp
  next
    assume "snd (snd (snd st')) = log @ [Rd (i div 2), Rd i]"
    then have "snd (snd (snd st')) = (log @ [Rd (i div 2)]) @ [Rd i]" by simp
    with ins h i1 iu show ?thesis by (simp only: inside_append inside_Rd)
  qed
qed

lemma sum_rt_inside:
  assumes g: "good d ops nodes0 t" and k: "1 \<le> k" "k < 2 ^ d"
  shows "inside d (snd (snd (sum_rt d t k)))"
proof -
  have start: "sum_inv d k ops t (t, sum_start d k, 0, []) \<and>
      inside d (snd (snd (snd (t, sum_start d k, 0 :: 32 word, []))))"
    using sum_inv_start [of k d ops t] k by simp
  have "inside d (snd (snd (snd (sum_loop d k (t, sum_start d k, 0, [])))))"
  proof (rule sum_loop_rule [where I = "\<lambda>st. sum_inv d k ops t st \<and> inside d (snd (snd (snd st)))"
      and Q = "\<lambda>st. inside d (snd (snd (snd st)))", OF start])
    fix st st'
    assume I: "sum_inv d k ops t st \<and> inside d (snd (snd (snd st)))"
      and b: "sum_body d k st = Continue st'"
    obtain i s log where st: "st = (t, i, s, log)"
      using I by (cases st) (auto simp: sum_inv_def)
    from I have inv: "sum_inv d k ops t (t, i, s, log)" and ins: "inside d log"
      by (simp_all add: st)
    from sum_inv_step [OF g inv] b have "sum_inv d k ops t st'"
      by (simp add: st)
    moreover from sum_inv_inside_step [OF g k(2) inv ins, of st'] b
    have "inside d (snd (snd (snd st')))" by (simp add: st)
    ultimately show "sum_inv d k ops t st' \<and> inside d (snd (snd (snd st')))" ..
  next
    fix st st'
    assume I: "sum_inv d k ops t st \<and> inside d (snd (snd (snd st)))"
      and b: "sum_body d k st = Break st'"
    obtain i s log where st: "st = (t, i, s, log)"
      using I by (cases st) (auto simp: sum_inv_def)
    from I have inv: "sum_inv d k ops t (t, i, s, log)" and ins: "inside d log"
      by (simp_all add: st)
    from sum_inv_inside_step [OF g k(2) inv ins, of st'] b
    show "inside d (snd (snd (snd st')))" by (simp add: st)
  qed simp
  then show ?thesis by (simp add: sum_rt_eq)
qed

lemma inside_no_0: "inside d log \<Longrightarrow> Rd 0 \<notin> set log \<and> Wr 0 \<notin> set log"
  by (auto simp: inside_def list_all_iff)

text \<open>
  Claim C3. The claim says that neither operation ever reads or writes slot 0. The code
  does otherwise: on every tree built by valid inserts, \<^verbatim>\<open>sum(MAX_LEAVES)\<close> reads slot 0.
\<close>

theorem sum_reads_slot_0:
  assumes "valid_ops d ops"
  shows "Rd 0 \<in> set (snd (snd (sum_rt d (inserts d ops (RangeTree d nodes0)) (MAX_LEAVES d))))"
  using sum_full_reads_0 [OF good_inserts [OF assms]] by (simp add: MAX_LEAVES_pow)

theorem sum_reads_slot_0_witness:
  "valid_ops D [(3, 5), (3, 2), (6, 10)] \<and>
   Rd 0 \<in> set (snd (snd (sum_rt D (inserts D [(3, 5), (3, 2), (6, 10)] (RangeTree D zero_nodes))
     (MAX_LEAVES D))))"
proof -
  have h: "valid_ops D [(3, 5), (3, 2), (6, 10)]"
    by (simp add: valid_ops_def MAX_LEAVES_pow D_def)
  from sum_reads_slot_0 [OF h, of zero_nodes] h show ?thesis by blast
qed

section \<open>Termination of the loop of sum\<close>

text \<open>
  \<open>sum_loop\<close> is total: its definition comes with a termination proof, on every array and
  from every slot. The facts below add the variant the specification names.
\<close>

lemma good_step_variant:
  assumes g: "good d ops nodes0 t" and l: "l \<le> d" "2 ^ l \<le> i" "i < 2 * 2 ^ l"
  shows "case sum_body d k (t, i, s, log) of
           Continue (t', i', s', log') \<Rightarrow>
             t' = t \<and> 1 \<le> i' \<and> i' < TREE_SIZE d \<and> 0 \<le> level (t i') \<and> 0 \<le> leveli (t i') \<and>
             (level (t i') < level (t i) \<or>
              level (t i') = level (t i) \<and> leveli (t i') < leveli (t i))
         | Break (t', i', s', log') \<Rightarrow>
             t' = t \<and> i' = i \<and> leveli (t i) = 0 \<and> log' \<noteq> [] \<and> last log' = Rd i"
proof -
  have ld: "(2::int) ^ l \<le> 2 ^ d" using l(1) by (intro power_increasing) simp_all
  have p: "(1::int) \<le> 2 ^ l" by simp
  note here = good_node(1,4) [OF g l]
  note step = good_step [OF g l, of k s log]
  consider (climb) "1 < i" "hi d (l - 1) (i div 2) \<le> k"
    | (left) "\<not> (1 < i \<and> hi d (l - 1) (i div 2) \<le> k)" "2 ^ l < i"
    | (stop) "\<not> (1 < i \<and> hi d (l - 1) (i div 2) \<le> k)" "\<not> 2 ^ l < i"
    by blast
  then show ?thesis
  proof cases
    case climb
    with l obtain l' where l': "l = Suc l'" by (cases l) auto
    have up: "l' \<le> d" "2 ^ l' \<le> i div 2" "i div 2 < 2 * 2 ^ l'"
      using l unfolding l' by simp_all
    have "(1::int) \<le> 2 ^ l'" by simp
    with up have "1 \<le> i div 2" by linarith
    moreover have "i div 2 < TREE_SIZE d"
      using l(3) ld climb(1) unfolding TREE_SIZE_pow by linarith
    moreover note good_node(1,4) [OF g up] here
    moreover from step climb
    have "sum_body d k (t, i, s, log) = Continue (t, i div 2, s, log @ [Rd (i div 2)])"
      by simp
    ultimately show ?thesis using up(2) by (simp add: l')
  next
    case left
    have same: "l \<le> d" "2 ^ l \<le> i - 1" "i - 1 < 2 * 2 ^ l"
      using l left(2) by simp_all
    have "1 \<le> i - 1" using same(2) p by linarith
    moreover have "i - 1 < TREE_SIZE d"
      using l(3) ld unfolding TREE_SIZE_pow by linarith
    moreover note good_node(1,4) [OF g same] here
    moreover from step left
    have "sum_body d k (t, i, s, log) =
      Continue (t, i - 1, s + deltas_in ops (lo d l i) (hi d l i), log @ [Rd (i div 2), Rd i])"
      by simp
    ultimately show ?thesis using same(2) by simp
  next
    case stop
    with l have "i = 2 ^ l" by simp
    moreover from step stop
    have "sum_body d k (t, i, s, log) =
      Break (t, i, s + deltas_in ops (lo d l i) (hi d l i), log @ [Rd (i div 2), Rd i])"
      by simp
    ultimately show ?thesis using here by simp
  qed
qed

lemma sum_body_wf: "wf {(st', st). 0 < fst (snd st) \<and> sum_body d k st = Continue st'}"
proof (rule wf_subset [OF wf_measure [of "\<lambda>st. nat (fst (snd st))"]], rule subsetI)
  fix x :: "sum_state \<times> sum_state"
  assume x: "x \<in> {(st', st). 0 < fst (snd st) \<and> sum_body d k st = Continue st'}"
  obtain st' st where [simp]: "x = (st', st)" by (cases x)
  obtain t i s log where [simp]: "st = (t, i, s, log)" by (cases st)
  from x show "x \<in> measure (\<lambda>st. nat (fst (snd st)))"
    by (auto simp: sum_body_def Let_def shr_def split: if_splits)
qed

lemma sum_loop_exit:
  assumes g: "good d ops nodes0 t" and i: "1 \<le> i" "i < TREE_SIZE d"
  shows "case sum_loop d k (t, i, s, log) of
           (t', i', s', log') \<Rightarrow>
             1 \<le> i' \<and> i' < TREE_SIZE d \<and> leveli (t i') = 0 \<and> log' \<noteq> [] \<and> last log' = Rd i'"
proof (rule sum_loop_rule [where I = "\<lambda>st. fst st = t \<and> 1 \<le> fst (snd st) \<and> fst (snd st) < TREE_SIZE d"
      and Q = "\<lambda>st. case st of (t', i', s', log') \<Rightarrow>
             1 \<le> i' \<and> i' < TREE_SIZE d \<and> leveli (t i') = 0 \<and> log' \<noteq> [] \<and> last log' = Rd i'"])
  show "fst (t, i, s, log) = t \<and> 1 \<le> fst (snd (t, i, s, log)) \<and> fst (snd (t, i, s, log)) < TREE_SIZE d"
    using i by simp
next
  fix st st'
  assume I: "fst st = t \<and> 1 \<le> fst (snd st) \<and> fst (snd st) < TREE_SIZE d"
    and b: "sum_body d k st = Continue st'"
  obtain j s log where st: "st = (t, j, s, log)" using I by (cases st) auto
  with I obtain l where l: "l \<le> d" "2 ^ l \<le> j" "j < 2 * 2 ^ l"
    using level_exists [of j d] by (auto simp: TREE_SIZE_pow)
  from good_step_variant [OF g l, of k s log] b
  show "fst st' = t \<and> 1 \<le> fst (snd st') \<and> fst (snd st') < TREE_SIZE d"
    by (cases st') (simp add: st)
next
  fix st st'
  assume I: "fst st = t \<and> 1 \<le> fst (snd st) \<and> fst (snd st) < TREE_SIZE d"
    and b: "sum_body d k st = Break st'"
  obtain j s log where st: "st = (t, j, s, log)" using I by (cases st) auto
  with I obtain l where l: "l \<le> d" "2 ^ l \<le> j" "j < 2 * 2 ^ l"
    using level_exists [of j d] by (auto simp: TREE_SIZE_pow)
  from good_step_variant [OF g l, of k s log] b I
  show "case st' of (t', i', s', log') \<Rightarrow>
             1 \<le> i' \<and> i' < TREE_SIZE d \<and> leveli (t i') = 0 \<and> log' \<noteq> [] \<and> last log' = Rd i'"
    by (cases st') (simp add: st)
next
  fix st :: sum_state
  assume "fst st = t \<and> 1 \<le> fst (snd st) \<and> fst (snd st) < TREE_SIZE d" "\<not> 0 < fst (snd st)"
  then have False by linarith
  then show "case st of (t', i', s', log') \<Rightarrow>
             1 \<le> i' \<and> i' < TREE_SIZE d \<and> leveli (t i') = 0 \<and> log' \<noteq> [] \<and> last log' = Rd i'" ..
qed

text \<open>
  Claim C5. On a tree built by valid inserts and for a bound in \<open>1 .. MAX_LEAVES\<close>: from any
  slot in \<open>1 .. TREE_SIZE - 1\<close>, one iteration of the loop either goes on at a slot of a
  smaller level, or goes on at a slot of the same level with a smaller \<^verbatim>\<open>leveli()\<close>, or
  leaves through \<^verbatim>\<open>break\<close> at a slot with \<^verbatim>\<open>leveli() == 0\<close>; it never leaves the slots
  \<open>1 .. TREE_SIZE - 1\<close>. The run of \<^verbatim>\<open>sum\<close> ends at a left-most slot, which is the last one it
  read, and the relation between a loop state and its successor is well-founded.
\<close>

theorem sum_terminates:
  fixes d :: nat and ops :: "(int \<times> 32 word) list" and nodes0 :: nodes
  assumes "valid_ops d ops" and "1 \<le> k" and "k \<le> MAX_LEAVES d"
  defines "t \<equiv> inserts d ops (RangeTree d nodes0)"
  shows "(1 \<le> i \<and> i < TREE_SIZE d \<longrightarrow>
          (case sum_body d k (t, i, s, log) of
             Continue (t', i', s', log') \<Rightarrow>
               t' = t \<and> 1 \<le> i' \<and> i' < TREE_SIZE d \<and> 0 \<le> level (t i') \<and> 0 \<le> leveli (t i') \<and>
               (level (t i') < level (t i) \<or>
                level (t i') = level (t i) \<and> leveli (t i') < leveli (t i))
           | Break (t', i', s', log') \<Rightarrow>
               t' = t \<and> i' = i \<and> leveli (t i) = 0 \<and> log' \<noteq> [] \<and> last log' = Rd i)) \<and>
         (case sum_loop d k (t, sum_start d k, 0, []) of
            (t', i', s', log') \<Rightarrow>
              1 \<le> i' \<and> i' < TREE_SIZE d \<and> leveli (t i') = 0 \<and> log' \<noteq> [] \<and> last log' = Rd i') \<and>
         wf {(st', st). 0 < fst (snd st) \<and> sum_body d k st = Continue st'}"
proof (intro conjI impI)
  have g: "good d ops nodes0 t"
    unfolding t_def by (rule good_inserts [OF assms(1)])
  {
    assume "1 \<le> i \<and> i < TREE_SIZE d"
    then obtain l where l: "l \<le> d" "2 ^ l \<le> i" "i < 2 * 2 ^ l"
      using level_exists [of i d] by (auto simp: TREE_SIZE_pow)
    from good_step_variant [OF g l, of k s log]
    show "case sum_body d k (t, i, s, log) of
             Continue (t', i', s', log') \<Rightarrow>
               t' = t \<and> 1 \<le> i' \<and> i' < TREE_SIZE d \<and> 0 \<le> level (t i') \<and> 0 \<le> leveli (t i') \<and>
               (level (t i') < level (t i) \<or>
                level (t i') = level (t i) \<and> leveli (t i') < leveli (t i))
           | Break (t', i', s', log') \<Rightarrow>
               t' = t \<and> i' = i \<and> leveli (t i) = 0 \<and> log' \<noteq> [] \<and> last log' = Rd i" .
  }
  have "1 \<le> sum_start d k" "sum_start d k < TREE_SIZE d"
    using assms(2,3) by (simp_all add: sum_start_def MAX_LEAVES_pow TREE_SIZE_pow)
  from sum_loop_exit [OF g this]
  show "case sum_loop d k (t, sum_start d k, 0, []) of
            (t', i', s', log') \<Rightarrow>
              1 \<le> i' \<and> i' < TREE_SIZE d \<and> leveli (t i') = 0 \<and> log' \<noteq> [] \<and> last log' = Rd i'" .
  show "wf {(st', st). 0 < fst (snd st) \<and> sum_body d k st = Continue st'}"
    by (rule sum_body_wf)
qed

theorem sum_terminates_witness:
  "valid_ops 3 [(3, 5), (3, 2), (6, 10)] \<and> (1::int) \<le> 7 \<and> 7 \<le> MAX_LEAVES 3 \<and>
   wf {(st', st). 0 < fst (snd st) \<and> sum_body 3 7 st = Continue st'} \<and>
   (case sum_loop 3 7 (inserts 3 [(3, 5), (3, 2), (6, 10)] (RangeTree 3 zero_nodes), sum_start 3 7, 0, []) of
      (t', i', s', log') \<Rightarrow>
        1 \<le> i' \<and> i' < TREE_SIZE 3 \<and>
        leveli (inserts 3 [(3, 5), (3, 2), (6, 10)] (RangeTree 3 zero_nodes) i') = 0 \<and>
        log' \<noteq> [] \<and> last log' = Rd i')"
proof -
  have h1: "valid_ops 3 [(3, 5), (3, 2), (6, 10)]"
    by (simp add: valid_ops_def MAX_LEAVES_pow)
  have h2: "(1::int) \<le> 7" by simp
  have h3: "7 \<le> MAX_LEAVES 3" by (simp add: MAX_LEAVES_pow)
  note r = sum_terminates [OF h1 h2 h3, of 1 zero_nodes 0 "[]"]
  show ?thesis
    by (intro conjI h1 h2 h3 r [THEN conjunct2, THEN conjunct2] r [THEN conjunct2, THEN conjunct1])
qed

end
